theory Spec2Isabelle
  imports Main
begin

unbundle bit_operations_syntax

section \<open>Go values shared by both packages\<close>

text \<open>
  A Go \<open>string\<close> is a sequence of bytes; \<open>len\<close> counts bytes and \<open>s[i]\<close> reads one.
  It is modelled as \<open>string\<close> (a list of 8-bit \<open>char\<close>s). A Go \<open>int\<close> or \<open>int64\<close> is
  modelled as \<open>int\<close>; where a product of configured values can leave the 64-bit range
  the wrap-around is written out (\<open>int64\<close> below).

  A run-time panic is a result of its own, so that an index out of range, a nil
  dereference or a failed type assertion is a branch of the model and not an
  unspecified value of HOL.
\<close>

datatype panic =
    NilDereference
  | IndexOutOfRange
  | TypeAssertionOnNil
  | TypeAssertionFailed
  | NegativeGrowCount

datatype 'a outcome = Return 'a | Panic panic

section \<open>Package random: \<open>random.go\<close>\<close>

record StringGenerator =
  base :: string
  baseLength :: nat
  indexBits :: nat
  indexMask :: int
  indexMax :: nat

text \<open>
  \<open>NewStringGenerator\<close> counts \<open>y\<close> up from \<open>1.0\<close> while \<open>math.Pow(2, y) < float64(len(base))\<close>.
  Both sides are integers that \<open>float64\<close> holds exactly (a power of two, and a length
  below \<open>2^53\<close>), so the comparison is the comparison of the integers.
\<close>

function bitsLoop :: "nat \<Rightarrow> nat \<Rightarrow> nat" where
  "bitsLoop y n = (if 2 ^ y < n then bitsLoop (y + 1) n else y)"
  by pat_completeness auto
termination
proof (relation "measure (\<lambda>(y, n). n - 2 ^ y)")
  show "wf (measure (\<lambda>(y, n::nat). n - 2 ^ y))" by simp
next
  fix y n :: nat
  assume "2 ^ y < n"
  moreover have "(2::nat) ^ y < 2 ^ (y + 1)" by simp
  ultimately show "((y + 1, n), (y, n)) \<in> measure (\<lambda>(y, n). n - 2 ^ y)"
    by (simp del: power_Suc add: diff_less_mono2)
qed

declare bitsLoop.simps [simp del]

text \<open>
  \<open>indexMask\<close> is \<open>(1 << bits) - 1\<close> on \<open>int64\<close>. For \<open>bits \<le> 62\<close> nothing wraps; for
  \<open>bits = 63\<close> the shift gives \<open>-2^63\<close> and the subtraction wraps to \<open>2^63 - 1\<close>; the model's
  \<open>2 ^ bits - 1\<close> is the same value. A Go string is shorter than \<open>2^63\<close> bytes, so \<open>bits\<close>
  never exceeds 63. The seeded \<open>rand.Source\<close> is not a field of the model: \<open>Generate\<close>
  takes the stream of draws as an argument.
\<close>

definition NewStringGenerator :: "string \<Rightarrow> StringGenerator" where
  "NewStringGenerator b =
     (let bits = bitsLoop 1 (length b)
      in \<lparr> base = b,
           baseLength = length b,
           indexBits = bits,
           indexMask = 2 ^ bits - 1,
           indexMax = 63 div bits \<rparr>)"

text \<open>
  The random source: \<open>src k\<close> is what the \<open>k\<close>-th call of \<open>Int63\<close> since seeding
  returns, cut to the 63 bits that \<open>rand.Source.Int63\<close> promises.
\<close>

type_synonym source = "nat \<Rightarrow> nat"

definition Int63 :: "source \<Rightarrow> nat \<Rightarrow> int" where
  "Int63 src k = int (src k mod 2 ^ 63)"

text \<open>
  The loop of \<open>Generate\<close>. Its state is \<open>i\<close>, \<open>cache\<close>, \<open>remain\<close>, the builder and the
  number \<open>pos\<close> of draws taken so far. Rejection sampling has no bound on the number of
  rounds, so the first argument is fuel: one unit per round, \<open>None\<close> when it runs out
  with the loop still running. \<open>rsg.base[index]\<close> panics out of range.
\<close>

fun Generate_loop ::
  "nat \<Rightarrow> StringGenerator \<Rightarrow> source \<Rightarrow> nat \<Rightarrow> int \<Rightarrow> int \<Rightarrow> int \<Rightarrow> string
     \<Rightarrow> (string \<times> nat) outcome option" where
  "Generate_loop 0 rsg src pos i cache remain builder =
     (if 0 \<le> i then None else Some (Return (builder, pos)))"
| "Generate_loop (Suc fuel) rsg src pos i cache remain builder =
     (if 0 \<le> i then
        (let cache1 = (if remain = 0 then Int63 src pos else cache);
             pos1 = (if remain = 0 then pos + 1 else pos);
             remain1 = (if remain = 0 then int (indexMax rsg) else remain);
             index = cache1 AND indexMask rsg
         in if index < int (baseLength rsg) then
              (if index < 0 \<or> int (length (base rsg)) \<le> index then Some (Panic IndexOutOfRange)
               else Generate_loop fuel rsg src pos1 (i - 1)
                      (drop_bit (indexBits rsg) cache1) (remain1 - 1)
                      (builder @ [base rsg ! nat index]))
            else Generate_loop fuel rsg src pos1 i
                   (drop_bit (indexBits rsg) cache1) (remain1 - 1) builder)
      else Some (Return (builder, pos)))"

text \<open>
  \<open>Generate\<close>: \<open>builder.Grow(length)\<close> panics on a negative count; the loop starts with
  \<open>i = length - 1\<close>, a fresh draw in \<open>cache\<close> and \<open>remain = indexMax\<close>. The result is the
  string and the number of draws consumed.
\<close>

definition Generate ::
  "nat \<Rightarrow> StringGenerator \<Rightarrow> source \<Rightarrow> nat \<Rightarrow> int \<Rightarrow> (string \<times> nat) outcome option" where
  "Generate fuel rsg src pos len =
     (if len < 0 then Some (Panic NegativeGrowCount)
      else Generate_loop fuel rsg src (pos + 1) (len - 1) (Int63 src pos)
             (int (indexMax rsg)) [])"

text \<open>
  The indices the loop looks at in its first \<open>n\<close> rounds, read off the same \<open>cache\<close>,
  \<open>remain\<close> and draw counter: they depend on the source only, not on which of them
  are accepted.
\<close>

fun candidates :: "nat \<Rightarrow> StringGenerator \<Rightarrow> source \<Rightarrow> nat \<Rightarrow> int \<Rightarrow> int \<Rightarrow> int list" where
  "candidates 0 rsg src pos cache remain = []"
| "candidates (Suc n) rsg src pos cache remain =
     (let cache1 = (if remain = 0 then Int63 src pos else cache);
          pos1 = (if remain = 0 then pos + 1 else pos);
          remain1 = (if remain = 0 then int (indexMax rsg) else remain)
      in (cache1 AND indexMask rsg)
           # candidates n rsg src pos1 (drop_bit (indexBits rsg) cache1) (remain1 - 1))"

definition accepted :: "nat \<Rightarrow> StringGenerator \<Rightarrow> source \<Rightarrow> nat \<Rightarrow> int list" where
  "accepted n rsg src pos =
     filter (\<lambda>index. index < int (baseLength rsg))
       (candidates n rsg src (pos + 1) (Int63 src pos) (int (indexMax rsg)))"

section \<open>Go library functions that \<open>object.go\<close> calls\<close>

subsection \<open>Strings: \<open>range\<close>, \<open>string(rune)\<close>, package \<open>strings\<close>\<close>

text \<open>
  \<open>for _, character := range s\<close> walks the string rune by rune: each step decodes one
  UTF-8 sequence (\<open>utf8.DecodeRuneInString\<close>) and moves on by its size; a byte that
  starts no valid sequence yields \<open>U+FFFD\<close> and moves on by one. The result is the rune
  and the number of bytes it took.
\<close>

definition RuneError :: nat where
  "RuneError = 0xFFFD"

definition DecodeRuneInString :: "string \<Rightarrow> nat \<times> nat" where
  "DecodeRuneInString s =
     (case s of
        [] \<Rightarrow> (RuneError, 0)
      | c0 # _ \<Rightarrow>
          (let s0 = (of_char c0 :: nat) in
           if s0 < 0x80 then (s0, 1)
           else if s0 < 0xC2 \<or> 0xF4 < s0 then (RuneError, 1)
           else
             (let sz = (if s0 < 0xE0 then 2 else if s0 < 0xF0 then 3 else 4 :: nat);
                  lo = (if s0 = 0xE0 then 0xA0 else if s0 = 0xF0 then 0x90 else 0x80 :: nat);
                  hi = (if s0 = 0xED then 0x9F else if s0 = 0xF4 then 0x8F else 0xBF :: nat)
              in if length s < sz then (RuneError, 1)
                 else
                   (let s1 = (of_char (s ! 1) :: nat) in
                    if s1 < lo \<or> hi < s1 then (RuneError, 1)
                    else if sz \<le> 2 then ((s0 mod 32) * 64 + s1 mod 64, 2)
                    else
                      (let s2 = (of_char (s ! 2) :: nat) in
                       if s2 < 0x80 \<or> 0xBF < s2 then (RuneError, 1)
                       else if sz \<le> 3 then ((s0 mod 16) * 4096 + (s1 mod 64) * 64 + s2 mod 64, 3)
                       else
                         (let s3 = (of_char (s ! 3) :: nat) in
                          if s3 < 0x80 \<or> 0xBF < s3 then (RuneError, 1)
                          else ((s0 mod 8) * 262144 + (s1 mod 64) * 4096
                                  + (s2 mod 64) * 64 + s3 mod 64, 4)))))))"

text \<open>
  The runes of a string, in the order \<open>range\<close> yields them. The step drops
  \<open>size - 1\<close> bytes after the first one, which is \<open>size\<close> bytes of the string.
\<close>

fun runes :: "string \<Rightarrow> nat list" where
  "runes [] = []"
| "runes (c # t) =
     fst (DecodeRuneInString (c # t)) # runes (drop (snd (DecodeRuneInString (c # t)) - 1) t)"

text \<open>\<open>string(character)\<close>: the UTF-8 encoding of a rune (\<open>U+FFFD\<close> for an invalid one).\<close>

definition encode3 :: "nat \<Rightarrow> string" where
  "encode3 r = [char_of (0xE0 + r div 4096), char_of (0x80 + (r div 64) mod 64),
                char_of (0x80 + r mod 64)]"

definition string_of_rune :: "nat \<Rightarrow> string" where
  "string_of_rune r =
     (if r \<le> 0x7F then [char_of r]
      else if r \<le> 0x7FF then [char_of (0xC0 + r div 64), char_of (0x80 + r mod 64)]
      else if 0x10FFFF < r \<or> (0xD800 \<le> r \<and> r \<le> 0xDFFF) then encode3 RuneError
      else if r \<le> 0xFFFF then encode3 r
      else [char_of (0xF0 + r div 262144), char_of (0x80 + (r div 4096) mod 64),
            char_of (0x80 + (r div 64) mod 64), char_of (0x80 + r mod 64)])"

text \<open>\<open>strings.HasPrefix\<close> and \<open>strings.Contains\<close>: \<open>substr\<close> occurs in \<open>s\<close>.\<close>

fun HasPrefix :: "string \<Rightarrow> string \<Rightarrow> bool" where
  "HasPrefix s [] = True"
| "HasPrefix [] (p # ps) = False"
| "HasPrefix (c # cs) (p # ps) = (c = p \<and> HasPrefix cs ps)"

fun Contains :: "string \<Rightarrow> string \<Rightarrow> bool" where
  "Contains [] substr = HasPrefix [] substr"
| "Contains (c # cs) substr = (HasPrefix (c # cs) substr \<or> Contains cs substr)"

text \<open>
  \<open>strings.Split(s, sep)\<close> and \<open>strings.ReplaceAll(s, old, new)\<close>, for the separator
  and the old string of one byte that \<open>object.go\<close> passes (\<open>"\<close> and \<open>+\<close>). A byte that
  is not the separator goes to the front of the first field of the rest; the split
  of the rest is never empty.
\<close>

fun Split :: "string \<Rightarrow> char \<Rightarrow> string list" where
  "Split [] sep = [[]]"
| "Split (c # cs) sep =
     (if c = sep then [] # Split cs sep
      else (case Split cs sep of
              f # fs \<Rightarrow> (c # f) # fs
            | [] \<Rightarrow> [[c]]))"

definition ReplaceAll :: "string \<Rightarrow> char \<Rightarrow> string \<Rightarrow> string" where
  "ReplaceAll s old new = concat (map (\<lambda>c. if c = old then new else [c]) s)"

subsection \<open>Package \<open>net/url\<close>: \<open>QueryEscape\<close> and \<open>QueryUnescape\<close>\<close>

text \<open>
  \<open>shouldEscape\<close> in mode \<open>encodeQueryComponent\<close>: letters, digits and \<open>- _ . ~\<close> stay,
  every other byte is escaped. \<open>QueryEscape\<close> writes a space as \<open>+\<close> and any other
  escaped byte as \<open>%\<close> and two upper-case hexadecimal digits.
\<close>

definition shouldEscape :: "char \<Rightarrow> bool" where
  "shouldEscape c =
     (let n = (of_char c :: nat) in
      \<not> ((0x61 \<le> n \<and> n \<le> 0x7A) \<or> (0x41 \<le> n \<and> n \<le> 0x5A) \<or> (0x30 \<le> n \<and> n \<le> 0x39)
         \<or> c = CHR ''-'' \<or> c = CHR ''_'' \<or> c = CHR ''.'' \<or> c = CHR ''~''))"

definition upperhex :: string where
  "upperhex = ''0123456789ABCDEF''"

definition escapeByte :: "char \<Rightarrow> string" where
  "escapeByte c =
     (if c = CHR '' '' then ''+''
      else if shouldEscape c then
        [CHR ''%'', upperhex ! ((of_char c :: nat) div 16), upperhex ! ((of_char c :: nat) mod 16)]
      else [c])"

definition QueryEscape :: "string \<Rightarrow> string" where
  "QueryEscape s = concat (map escapeByte s)"

definition ishex :: "char \<Rightarrow> bool" where
  "ishex c =
     (let n = (of_char c :: nat) in
      (0x30 \<le> n \<and> n \<le> 0x39) \<or> (0x61 \<le> n \<and> n \<le> 0x66) \<or> (0x41 \<le> n \<and> n \<le> 0x46))"

definition unhex :: "char \<Rightarrow> nat" where
  "unhex c =
     (let n = (of_char c :: nat) in
      if 0x30 \<le> n \<and> n \<le> 0x39 then n - 0x30
      else if 0x61 \<le> n \<and> n \<le> 0x66 then n - 0x61 + 10
      else if 0x41 \<le> n \<and> n \<le> 0x46 then n - 0x41 + 10
      else 0)"

text \<open>
  \<open>QueryUnescape\<close> makes two passes. The first checks that every \<open>%\<close> is followed by
  two hexadecimal digits and otherwise fails with \<open>EscapeError\<close> of the (at most three)
  bytes at the \<open>%\<close>; the second builds the result: \<open>%XY\<close> becomes the byte \<open>XY\<close>, \<open>+\<close>
  becomes a space. The second pass runs only after the first has found no error, so
  its branch for a \<open>%\<close> without two bytes after it is never taken.
\<close>

fun unescape_check :: "string \<Rightarrow> string option" where
  "unescape_check [] = None"
| "unescape_check (c # t) =
     (if c = CHR ''%'' then
        (case t of
           a # b # t' \<Rightarrow>
             (if \<not> ishex a \<or> \<not> ishex b then Some (take 3 (c # t)) else unescape_check t')
         | _ \<Rightarrow> Some (take 3 (c # t)))
      else unescape_check t)"

fun unescape_build :: "string \<Rightarrow> string" where
  "unescape_build [] = []"
| "unescape_build (c # t) =
     (if c = CHR ''%'' then
        (case t of
           a # b # t' \<Rightarrow> char_of (unhex a * 16 + unhex b) # unescape_build t'
         | _ \<Rightarrow> [])
      else if c = CHR ''+'' then CHR '' '' # unescape_build t
      else c # unescape_build t)"

section \<open>Package object: \<open>object.go\<close>\<close>

subsection \<open>Errors, configuration and the \<open>Object\<close> struct\<close>

text \<open>
  A Go \<open>error\<close> value is \<open>error option\<close>, \<open>None\<close> for \<open>nil\<close>. The four package errors keep
  their names; \<open>AwsError code\<close> is an error of the AWS SDK, the only kind that implements
  \<open>awserr.Error\<close> and has a \<open>Code()\<close>; \<open>EscapeError\<close> is \<open>url.EscapeError\<close>;
  \<open>OtherError\<close> is any other error (transport, presigning, the CDN client).
\<close>

datatype error =
    errObjectKeyInvalid
  | errObjectNameInvalid
  | errObjectSizeInvalid
  | errObjectKeyGenerationTookMaxDelay
  | AwsError string
  | EscapeError string
  | OtherError string

definition url_QueryUnescape :: "string \<Rightarrow> error + string" where
  "url_QueryUnescape s =
     (case unescape_check s of
        Some bad \<Rightarrow> Inl (EscapeError bad)
      | None \<Rightarrow> Inr (unescape_build s))"

text \<open>
  The package variables read from the environment. Durations and times are in
  nanoseconds, as \<open>time.Duration\<close> is; \<open>OBJECT_KEY_LENGTH\<close> is a Go \<open>int\<close>.
\<close>

record config =
  S3_BUCKET :: string
  S3_ACL :: string
  S3_SSE :: string
  S3_STORAGE_CLASS :: string
  S3_LIST_OBJECTS_MAX_KEYS :: int
  CLOUDFLARE_ZONE :: string
  CLOUDFLARE_HOST :: string
  CLOUDFLARE_EMAIL :: string
  CLOUDFLARE_KEY :: string
  CLOUDFLARE_TOKEN :: string
  CLOUDFLARE_USER_SERVICE_KEY :: string
  OBJECT_KEY_BASE :: string
  OBJECT_KEY_LENGTH :: int
  OBJECT_KEY_DELAY_MAX :: int
  OBJECT_NAME_LENGTH_MIN :: int
  OBJECT_NAME_LENGTH_MAX :: int
  OBJECT_SIZE_MIN :: int
  OBJECT_SIZE_MAX :: int
  OBJECT_TIME_TO_LIVE :: int

text \<open>The defaults of \<open>object.go\<close>; the bucket is required and has none.\<close>

definition default_config :: config where
  "default_config =
     \<lparr> S3_BUCKET = ''bucket'',
       S3_ACL = ''private'',
       S3_SSE = ''AES256'',
       S3_STORAGE_CLASS = ''ONEZONE_IA'',
       S3_LIST_OBJECTS_MAX_KEYS = 1000,
       CLOUDFLARE_ZONE = [],
       CLOUDFLARE_HOST = [],
       CLOUDFLARE_EMAIL = [],
       CLOUDFLARE_KEY = [],
       CLOUDFLARE_TOKEN = [],
       CLOUDFLARE_USER_SERVICE_KEY = [],
       OBJECT_KEY_BASE = ''123456789ABCDEFGHJKLMNPQRSTUVWXYZabcdefghijkmnopqrstuvwxyz'',
       OBJECT_KEY_LENGTH = 4,
       OBJECT_KEY_DELAY_MAX = 5 * 1000000000,
       OBJECT_NAME_LENGTH_MIN = 1,
       OBJECT_NAME_LENGTH_MAX = 255,
       OBJECT_SIZE_MIN = 0,
       OBJECT_SIZE_MAX = 5 * 1000000000,
       OBJECT_TIME_TO_LIVE = (60 * 60 * 24 * 3 - 1) * 1000000000 \<rparr>"

text \<open>
  A \<open>time.Time\<close> is its number of nanoseconds since the Unix epoch; the zero
  \<open>time.Time\<close> is the first of January of year 1.
\<close>

definition zeroTime :: int where
  "zeroTime = - 62135596800 * 1000000000"

record Object =
  Key :: string
  Name :: string
  SizeBytes :: int
  LastModified :: int
  ExpirationSeconds :: int
  PresignedGetUrl :: string
  PresignedPutUrl :: string
  PresignedPutHeaders :: "string \<rightharpoonup> string"

text \<open>The zero \<open>Object\<close>: what a composite literal leaves in the fields it does not name.\<close>

definition Object_zero :: Object where
  "Object_zero =
     \<lparr> Key = [], Name = [], SizeBytes = 0, LastModified = zeroTime, ExpirationSeconds = 0,
       PresignedGetUrl = [], PresignedPutUrl = [], PresignedPutHeaders = Map.empty \<rparr>"

subsection \<open>The object store and the CDN as seen from \<open>object.go\<close>\<close>

text \<open>
  What \<open>HeadObject\<close> returns; the SDK's fields are pointers, \<open>None\<close> is \<open>nil\<close>.
\<close>

record HeadObjectOutput =
  ContentDisposition :: "string option"
  ContentLength :: "int option"
  HeadLastModified :: "int option"

record PutObjectInput =
  PutACL :: string
  PutBucket :: string
  PutContentDisposition :: string
  PutContentLength :: int
  PutKey :: string
  PutServerSideEncryption :: string
  PutStorageClass :: string

record ListObjectsV2Input =
  ListBucket :: string
  MaxKeys :: int
  StartAfter :: "string option"

text \<open>
  A page of a listing: the key and the last-modified time of each entry, and the
  truncation flag. The SDK's fields are pointers; the store sets all three, and the
  model takes them as set.
\<close>

record ListObjectsV2Output =
  Contents :: "(string \<times> int) list"
  IsTruncated :: bool

text \<open>
  The calls on \<open>s3Client\<close> (bucket and key as arguments, an error or the result back),
  the random source of \<open>randomStringGenerator\<close>, and a bound on the rounds of one
  \<open>Generate\<close> call.
\<close>

record s3env =
  HeadObject :: "string \<Rightarrow> string \<Rightarrow> error + HeadObjectOutput"
  PresignPutObject :: "PutObjectInput \<Rightarrow> int \<Rightarrow> error + string"
  PresignGetObject :: "string \<Rightarrow> string \<Rightarrow> int \<Rightarrow> error + string"
  DeleteObject :: "string \<Rightarrow> string \<Rightarrow> error option"
  randomSource :: source
  generateFuel :: nat

text \<open>
  The Cloudflare client library: a client is built by one of three constructors, each
  returning a client (or \<open>nil\<close>) and an error; \<open>PurgeCache\<close> is called on whatever
  \<open>cloudflareClient\<close> holds, which may be \<open>nil\<close>.
\<close>

datatype cloudflare_API = API nat

record cdnenv =
  cloudflare_New :: "string \<Rightarrow> string \<Rightarrow> cloudflare_API option \<times> error option"
  cloudflare_NewWithAPIToken :: "string \<Rightarrow> cloudflare_API option \<times> error option"
  cloudflare_NewWithUserServiceKey :: "string \<Rightarrow> cloudflare_API option \<times> error option"
  PurgeCache :: "cloudflare_API option \<Rightarrow> string \<Rightarrow> string list \<Rightarrow> error option outcome"

text \<open>
  What the calls change: the keys the bucket holds, and the package variable
  \<open>cloudflareClient\<close>, \<open>nil\<close> when the process starts.
\<close>

record world =
  live :: "string set"
  cloudflareClient :: "cloudflare_API option"

subsection \<open>\<open>objectValidate\<close>\<close>

text \<open>
  \<open>OBJECT_KEY_LENGTH*2\<close> is a product of Go \<open>int\<close>s and wraps around at 64 bits.
\<close>

definition int64 :: "int \<Rightarrow> int" where
  "int64 x = (x + 2 ^ 63) mod 2 ^ 64 - 2 ^ 63"

text \<open>The loop over the characters of the key, with its early return.\<close>

fun objectValidate_chars :: "config \<Rightarrow> nat list \<Rightarrow> error option" where
  "objectValidate_chars cfg [] = None"
| "objectValidate_chars cfg (character # rest) =
     (if \<not> Contains (OBJECT_KEY_BASE cfg) (string_of_rune character) then Some errObjectKeyInvalid
      else objectValidate_chars cfg rest)"

definition objectValidate_key :: "config \<Rightarrow> string \<Rightarrow> error option" where
  "objectValidate_key cfg key =
     (if int (length key) < OBJECT_KEY_LENGTH cfg
         \<or> int64 (OBJECT_KEY_LENGTH cfg * 2) < int (length key)
      then Some errObjectKeyInvalid
      else objectValidate_chars cfg (runes key))"

text \<open>
  \<open>objectValidate\<close> takes three pointers, each of which may be \<open>nil\<close>, and overwrites
  \<open>*name\<close> with the escaped name before it checks the length. The result is the error
  and what \<open>name\<close> points to afterwards.
\<close>

definition objectValidate ::
  "config \<Rightarrow> string option \<Rightarrow> string option \<Rightarrow> int option \<Rightarrow> error option \<times> string option" where
  "objectValidate cfg key name sizeBytes =
     (case (case key of None \<Rightarrow> None | Some k \<Rightarrow> objectValidate_key cfg k) of
        Some e \<Rightarrow> (Some e, name)
      | None \<Rightarrow>
          (let name1 = map_option (\<lambda>n. ReplaceAll (QueryEscape n) CHR ''+'' ''%20'') name in
           case (case name1 of
                   None \<Rightarrow> None
                 | Some n \<Rightarrow>
                     if int (length n) < OBJECT_NAME_LENGTH_MIN cfg
                        \<or> OBJECT_NAME_LENGTH_MAX cfg < int (length n)
                     then Some errObjectNameInvalid else None) of
             Some e \<Rightarrow> (Some e, name1)
           | None \<Rightarrow>
               (case sizeBytes of
                  None \<Rightarrow> (None, name1)
                | Some sz \<Rightarrow>
                    if sz < OBJECT_SIZE_MIN cfg \<or> OBJECT_SIZE_MAX cfg < sz
                    then (Some errObjectSizeInvalid, name1) else (None, name1))))"

subsection \<open>\<open>objectGenerateUniqueKey\<close>\<close>

text \<open>
  \<open>randomStringGenerator.Generate(OBJECT_KEY_LENGTH)\<close>, from draw \<open>pos\<close> of the source.
\<close>

definition generateKey :: "config \<Rightarrow> s3env \<Rightarrow> nat \<Rightarrow> (string \<times> nat) outcome option" where
  "generateKey cfg env pos =
     Generate (generateFuel env) (NewStringGenerator (OBJECT_KEY_BASE cfg)) (randomSource env)
       pos (OBJECT_KEY_LENGTH cfg)"

text \<open>The error of the \<open>HeadObject\<close> probe; \<open>None\<close> (\<open>nil\<close>) when the object exists.\<close>

definition probe :: "config \<Rightarrow> s3env \<Rightarrow> string \<Rightarrow> error option" where
  "probe cfg env key =
     (case HeadObject env (S3_BUCKET cfg) key of Inl e \<Rightarrow> Some e | Inr _ \<Rightarrow> None)"

text \<open>
  The retry loop. Its condition is \<open>err.(awserr.Error).Code() != "NotFound"\<close>: the type
  assertion panics when \<open>err\<close> is \<open>nil\<close> and when it is no \<open>awserr.Error\<close>. Each round
  reads the clock once (\<open>time.Since(t_start)\<close>); \<open>clock\<close> is the list of readings still
  to come, and the loop is recursive on it. \<open>headObjectInput.Key\<close> points to \<open>key\<close>, so
  every probe is for the key generated last. The result also carries the number of
  draws taken from the source; it is \<open>None\<close> when the readings of the clock or the
  fuel of a \<open>Generate\<close> call run out with the loop still running.
\<close>

fun objectGenerateUniqueKey_loop ::
  "config \<Rightarrow> s3env \<Rightarrow> int \<Rightarrow> int \<Rightarrow> int list \<Rightarrow> nat \<Rightarrow> string \<Rightarrow> error option
     \<Rightarrow> ((string \<times> error option) \<times> nat) outcome option" where
  "objectGenerateUniqueKey_loop cfg env maxDelay t_start clock pos key None =
     Some (Panic TypeAssertionOnNil)"
| "objectGenerateUniqueKey_loop cfg env maxDelay t_start clock pos key (Some (AwsError code)) =
     (if code \<noteq> ''NotFound'' then
        (case clock of
           [] \<Rightarrow> None
         | now # clock' \<Rightarrow>
             if now - t_start > maxDelay
             then Some (Return (([], Some errObjectKeyGenerationTookMaxDelay), pos))
             else
               (case generateKey cfg env pos of
                  None \<Rightarrow> None
                | Some (Panic p) \<Rightarrow> Some (Panic p)
                | Some (Return (key', pos')) \<Rightarrow>
                    objectGenerateUniqueKey_loop cfg env maxDelay t_start clock' pos' key'
                      (probe cfg env key')))
      else Some (Return ((key, None), pos)))"
| "objectGenerateUniqueKey_loop cfg env maxDelay t_start clock pos key (Some e) =
     Some (Panic TypeAssertionFailed)"

definition objectGenerateUniqueKey ::
  "config \<Rightarrow> s3env \<Rightarrow> int \<Rightarrow> int list \<Rightarrow> nat
     \<Rightarrow> ((string \<times> error option) \<times> nat) outcome option" where
  "objectGenerateUniqueKey cfg env maxDelay clock pos =
     (case clock of
        [] \<Rightarrow> None
      | t_start # clock' \<Rightarrow>
          (case generateKey cfg env pos of
             None \<Rightarrow> None
           | Some (Panic p) \<Rightarrow> Some (Panic p)
           | Some (Return (key, pos')) \<Rightarrow>
               objectGenerateUniqueKey_loop cfg env maxDelay t_start clock' pos' key
                 (probe cfg env key)))"

subsection \<open>\<open>Store\<close>\<close>

text \<open>\<open>fmt.Sprintf(`attachment; filename="%s"`, name)\<close>.\<close>

definition contentDisposition :: "string \<Rightarrow> string" where
  "contentDisposition name = ''attachment; filename='' @ [CHR 0x22] @ name @ [CHR 0x22]"

text \<open>
  \<open>Store\<close> validates name and size, allocates a key, presigns a \<open>PutObject\<close> request
  for 24 hours and returns the key, the URL and the four headers. \<open>name\<close> is the escaped
  name once \<open>objectValidate\<close> has returned.
\<close>

definition Store ::
  "config \<Rightarrow> s3env \<Rightarrow> int list \<Rightarrow> nat \<Rightarrow> string \<Rightarrow> int
     \<Rightarrow> ((Object option \<times> error option) \<times> nat) outcome option" where
  "Store cfg env clock pos name sizeBytes =
     (case objectValidate cfg None (Some name) (Some sizeBytes) of
        (Some e, _) \<Rightarrow> Some (Return ((None, Some e), pos))
      | (None, name1) \<Rightarrow>
          (case objectGenerateUniqueKey cfg env (OBJECT_KEY_DELAY_MAX cfg) clock pos of
             None \<Rightarrow> None
           | Some (Panic p) \<Rightarrow> Some (Panic p)
           | Some (Return ((key, Some e), pos')) \<Rightarrow> Some (Return ((None, Some e), pos'))
           | Some (Return ((key, None), pos')) \<Rightarrow>
               (let escaped = (case name1 of Some n \<Rightarrow> n | None \<Rightarrow> name);
                    cd = contentDisposition escaped;
                    req = \<lparr> PutACL = S3_ACL cfg,
                            PutBucket = S3_BUCKET cfg,
                            PutContentDisposition = cd,
                            PutContentLength = sizeBytes,
                            PutKey = key,
                            PutServerSideEncryption = S3_SSE cfg,
                            PutStorageClass = S3_STORAGE_CLASS cfg \<rparr>
                in case PresignPutObject env req (24 * 3600 * 1000000000) of
                     Inl e \<Rightarrow> Some (Return ((None, Some e), pos'))
                   | Inr url \<Rightarrow>
                       Some (Return
                         ((Some (Object_zero
                             \<lparr> Key := key,
                               PresignedPutUrl := url,
                               PresignedPutHeaders :=
                                 [''Content-Disposition'' \<mapsto> cd,
                                  ''X-AMZ-Acl'' \<mapsto> S3_ACL cfg,
                                  ''X-AMZ-Server-Side-Encryption'' \<mapsto> S3_SSE cfg,
                                  ''X-AMZ-Storage-Class'' \<mapsto> S3_STORAGE_CLASS cfg] \<rparr>),
                           None), pos')))))"

subsection \<open>\<open>Retrieve\<close>\<close>

text \<open>
  Line 121: \<open>url.QueryUnescape(strings.Split(*object.ContentDisposition, `"`)[1])\<close>.
  The dereference panics on a \<open>nil\<close> header and the index panics when the split has
  fewer than two fields.
\<close>

definition recoverName :: "string option \<Rightarrow> (error + string) outcome" where
  "recoverName header =
     (case header of
        None \<Rightarrow> Panic NilDereference
      | Some cd \<Rightarrow>
          (let fields = Split cd (CHR 0x22) in
           if length fields \<le> 1 then Panic IndexOutOfRange
           else Return (url_QueryUnescape (fields ! 1))))"

text \<open>
  Times are nanosecond counts. \<open>time.Time.Sub\<close> returns the difference as a
  \<open>time.Duration\<close>, a 64-bit count: a difference below \<open>minDuration\<close> \<open>= -1 << 63\<close> or
  above \<open>maxDuration\<close> \<open>= 1<<63 - 1\<close> is returned as that bound.
\<close>

definition Time_Sub :: "int \<Rightarrow> int \<Rightarrow> int" where
  "Time_Sub t u =
     (let d = t - u in
      if d < - (2 ^ 63) then - (2 ^ 63)
      else if 2 ^ 63 - 1 < d then 2 ^ 63 - 1
      else d)"

text \<open>
  \<open>Retrieve\<close>; \<open>now\<close> is the reading of \<open>time.Now()\<close>. \<open>object.LastModified\<close> and
  \<open>object.ContentLength\<close> are dereferenced too. \<open>Unix()\<close> is the number of whole
  seconds. Line 131 presigns for
  \<open>object.LastModified.Add(OBJECT_TIME_TO_LIVE).Sub(time.Now())\<close>.
\<close>

definition Retrieve ::
  "config \<Rightarrow> s3env \<Rightarrow> int \<Rightarrow> string \<Rightarrow> (Object option \<times> error option) outcome" where
  "Retrieve cfg env now key =
     (case fst (objectValidate cfg (Some key) None None) of
        Some e \<Rightarrow> Return (None, Some e)
      | None \<Rightarrow>
          (case HeadObject env (S3_BUCKET cfg) key of
             Inl e \<Rightarrow> Return (None, Some e)
           | Inr object \<Rightarrow>
               (case recoverName (ContentDisposition object) of
                  Panic p \<Rightarrow> Panic p
                | Return (Inl e) \<Rightarrow> Return (None, Some e)
                | Return (Inr name) \<Rightarrow>
                    (case HeadLastModified object of
                       None \<Rightarrow> Panic NilDereference
                     | Some modified \<Rightarrow>
                         (case PresignGetObject env (S3_BUCKET cfg) key
                                 (Time_Sub (modified + OBJECT_TIME_TO_LIVE cfg) now) of
                            Inl e \<Rightarrow> Return (None, Some e)
                          | Inr url \<Rightarrow>
                              (case ContentLength object of
                                 None \<Rightarrow> Panic NilDereference
                               | Some n \<Rightarrow>
                                   Return
                                     (Some (Object_zero
                                        \<lparr> Key := key,
                                          Name := name,
                                          SizeBytes := n,
                                          ExpirationSeconds :=
                                            (modified + OBJECT_TIME_TO_LIVE cfg) div 1000000000,
                                          PresignedGetUrl := url \<rparr>),
                                      None)))))))"

subsection \<open>\<open>List\<close>\<close>

text \<open>
  The store's answers to the successive \<open>ListObjectsV2\<close> calls are a list, an error or
  a page each; \<open>None\<close> is returned when the list ends while \<open>List\<close> would call again.
  The requests sent are collected beside the result. \<open>objects[len(objects)-1]\<close> panics
  when \<open>objects\<close> is empty.
\<close>

definition listInput :: "config \<Rightarrow> string option \<Rightarrow> ListObjectsV2Input" where
  "listInput cfg after =
     \<lparr> ListBucket = S3_BUCKET cfg, MaxKeys = S3_LIST_OBJECTS_MAX_KEYS cfg, StartAfter = after \<rparr>"

definition listedObject :: "string \<times> int \<Rightarrow> Object" where
  "listedObject obj = Object_zero \<lparr> Key := fst obj, LastModified := snd obj \<rparr>"

function List_loop ::
  "config \<Rightarrow> (error + ListObjectsV2Output) list \<Rightarrow> bool \<Rightarrow> ListObjectsV2Output
     \<Rightarrow> Object list \<Rightarrow> ListObjectsV2Input list
     \<Rightarrow> ((Object list \<times> error option) outcome \<times> ListObjectsV2Input list) option" where
  "List_loop cfg responses first out objects requests =
     (if first \<or> IsTruncated out then
        (if \<not> first then
           (if objects = [] then Some (Panic IndexOutOfRange, requests)
            else
              (case responses of
                 [] \<Rightarrow> None
               | Inl err # rest \<Rightarrow>
                   Some (Return ([], Some err),
                         requests @ [listInput cfg (Some (Key (last objects)))])
               | Inr out' # rest \<Rightarrow>
                   List_loop cfg rest False out'
                     (objects @ map listedObject (Contents out'))
                     (requests @ [listInput cfg (Some (Key (last objects)))])))
         else List_loop cfg responses False out
                (objects @ map listedObject (Contents out)) requests)
      else Some (Return (objects, None), requests))"
  by pat_completeness auto
termination
  by (relation "measure (\<lambda>(cfg, responses, first, out, objects, requests).
        2 * length responses + (if first then 1 else 0))") auto

declare List_loop.simps [simp del]

definition List ::
  "config \<Rightarrow> (error + ListObjectsV2Output) list
     \<Rightarrow> ((Object list \<times> error option) outcome \<times> ListObjectsV2Input list) option" where
  "List cfg responses =
     (case responses of
        [] \<Rightarrow> None
      | Inl err # rest \<Rightarrow> Some (Return ([], Some err), [listInput cfg None])
      | Inr out # rest \<Rightarrow> List_loop cfg rest True out [] [listInput cfg None])"

subsection \<open>\<open>Delete\<close> and \<open>purgeCache\<close>\<close>

text \<open>
  \<open>purgeCache\<close> assigns \<open>cloudflareClient\<close> and \<open>err\<close> in each of the three credential
  branches that applies, the later over the earlier, and in no other place.
\<close>

definition purgeCache ::
  "config \<Rightarrow> cdnenv \<Rightarrow> world \<Rightarrow> Object \<Rightarrow> error option outcome \<times> world" where
  "purgeCache cfg cdn w obj =
     (if CLOUDFLARE_ZONE cfg \<noteq> [] then
        (let s0 = (cloudflareClient w, None);
             s1 = (if CLOUDFLARE_EMAIL cfg \<noteq> [] \<and> CLOUDFLARE_KEY cfg \<noteq> []
                   then cloudflare_New cdn (CLOUDFLARE_KEY cfg) (CLOUDFLARE_EMAIL cfg) else s0);
             s2 = (if CLOUDFLARE_TOKEN cfg \<noteq> []
                   then cloudflare_NewWithAPIToken cdn (CLOUDFLARE_TOKEN cfg) else s1);
             s3 = (if CLOUDFLARE_USER_SERVICE_KEY cfg \<noteq> []
                   then cloudflare_NewWithUserServiceKey cdn (CLOUDFLARE_USER_SERVICE_KEY cfg)
                   else s2);
             w' = w \<lparr> cloudflareClient := fst s3 \<rparr>
         in case snd s3 of
              Some err \<Rightarrow> (Return (Some err), w')
            | None \<Rightarrow>
                (PurgeCache cdn (fst s3) (CLOUDFLARE_ZONE cfg)
                   [CLOUDFLARE_HOST cfg @ ''/'' @ Key obj,
                    CLOUDFLARE_HOST cfg @ ''/'' @ Key obj @ ''/''], w'))
      else (Return None, w))"

text \<open>
  \<open>Delete\<close>: a \<open>DeleteObject\<close> that succeeds removes the key from the bucket; then the
  purge.
\<close>

definition Delete ::
  "config \<Rightarrow> s3env \<Rightarrow> cdnenv \<Rightarrow> world \<Rightarrow> Object \<Rightarrow> error option outcome \<times> world" where
  "Delete cfg env cdn w obj =
     (case DeleteObject env (S3_BUCKET cfg) (Key obj) of
        Some err \<Rightarrow> (Return (Some err), w)
      | None \<Rightarrow> purgeCache cfg cdn (w \<lparr> live := live w - {Key obj} \<rparr>) obj)"

subsection \<open>\<open>Reap\<close>\<close>

fun Reap_loop ::
  "config \<Rightarrow> s3env \<Rightarrow> cdnenv \<Rightarrow> int \<Rightarrow> Object list \<Rightarrow> int \<Rightarrow> world
     \<Rightarrow> (int \<times> error option) outcome \<times> world" where
  "Reap_loop cfg env cdn now [] n w = (Return (n, None), w)"
| "Reap_loop cfg env cdn now (obj # objects) n w =
     (if LastModified obj + OBJECT_TIME_TO_LIVE cfg < now then
        (case Delete cfg env cdn w obj of
           (Panic p, w') \<Rightarrow> (Panic p, w')
         | (Return (Some err), w') \<Rightarrow> (Return (n, Some err), w')
         | (Return None, w') \<Rightarrow> Reap_loop cfg env cdn now objects (n + 1) w')
      else Reap_loop cfg env cdn now objects n w)"

text \<open>
  \<open>Reap\<close>: the listing, then \<open>now := time.Now()\<close>, then the loop over the listed objects.
\<close>

definition Reap ::
  "config \<Rightarrow> s3env \<Rightarrow> cdnenv \<Rightarrow> (error + ListObjectsV2Output) list \<Rightarrow> int \<Rightarrow> world
     \<Rightarrow> ((int \<times> error option) outcome \<times> world) option" where
  "Reap cfg env cdn responses now w =
     (case List cfg responses of
        None \<Rightarrow> None
      | Some (Panic p, _) \<Rightarrow> Some (Panic p, w)
      | Some (Return (_, Some err), _) \<Rightarrow> Some (Return (0, Some err), w)
      | Some (Return (objects, None), _) \<Rightarrow> Some (Reap_loop cfg env cdn now objects 0 w))"

subsection \<open>Notions used in the statements\<close>

text \<open>
  The name as \<open>objectValidate\<close> leaves it, and the same byte by byte: a space becomes
  \<open>%20\<close>, every other byte what \<open>QueryEscape\<close> makes of it.
\<close>

definition escapeName :: "string \<Rightarrow> string" where
  "escapeName n = ReplaceAll (QueryEscape n) CHR ''+'' ''%20''"

definition nameByte :: "char \<Rightarrow> string" where
  "nameByte c = (if c = CHR '' '' then ''%20'' else escapeByte c)"

text \<open>
  The \<open>j\<close>-th index cut from draw \<open>d\<close> of the source: its bits from \<open>indexBits * j\<close>
  on, under the mask.
\<close>

definition chunk :: "StringGenerator \<Rightarrow> source \<Rightarrow> nat \<Rightarrow> nat \<Rightarrow> int" where
  "chunk rsg src d j = drop_bit (indexBits rsg * j) (Int63 src d) AND indexMask rsg"

text \<open>
  A listed object is expired when its last-modified time plus the time to live is before
  \<open>now\<close>: the condition of the loop of \<open>Reap\<close>.
\<close>

definition expired :: "config \<Rightarrow> int \<Rightarrow> Object \<Rightarrow> bool" where
  "expired cfg now obj \<longleftrightarrow> LastModified obj + OBJECT_TIME_TO_LIVE cfg < now"

text \<open>A page of a listing as the store sends it.\<close>

definition page :: "bool \<Rightarrow> (string \<times> int) list \<Rightarrow> error + ListObjectsV2Output" where
  "page truncated entries = Inr \<lparr> Contents = entries, IsTruncated = truncated \<rparr>"

subsection \<open>Example environments\<close>

text \<open>
  A store that answers \<open>HeadObject\<close> by \<open>head\<close> and lets every other call succeed, with
  a random source whose draws are all zero; a CDN library whose constructors succeed
  and whose \<open>PurgeCache\<close> dereferences the client.
\<close>

definition exampleEnv :: "(string \<Rightarrow> string \<Rightarrow> error + HeadObjectOutput) \<Rightarrow> s3env" where
  "exampleEnv head =
     \<lparr> HeadObject = head,
       PresignPutObject = (\<lambda>req expire. Inr ''https://put''),
       PresignGetObject = (\<lambda>bucket key expire. Inr ''https://get''),
       DeleteObject = (\<lambda>bucket key. None),
       randomSource = (\<lambda>k. 0),
       generateFuel = 4 \<rparr>"

definition exampleHead :: "string option \<Rightarrow> HeadObjectOutput" where
  "exampleHead header =
     \<lparr> ContentDisposition = header, ContentLength = Some 1024, HeadLastModified = Some 0 \<rparr>"

definition exampleCdn :: cdnenv where
  "exampleCdn =
     \<lparr> cloudflare_New = (\<lambda>key email. (Some (API 1), None)),
       cloudflare_NewWithAPIToken = (\<lambda>token. (Some (API 2), None)),
       cloudflare_NewWithUserServiceKey = (\<lambda>key. (Some (API 3), None)),
       PurgeCache = (\<lambda>client zone files.
          case client of None \<Rightarrow> Panic NilDereference | Some api \<Rightarrow> Return None) \<rparr>"

text \<open>
  A bucket of four keys and a listing of three of them in one page, two of them last
  modified more than the time to live before \<open>3 * 10 ^ 14\<close>.
\<close>

definition exampleListing :: "(error + ListObjectsV2Output) list" where
  "exampleListing =
     [page False [(''old1'', 0), (''new1'', 5 * 10 ^ 14), (''old2'', 10 ^ 9)]]"

definition exampleWorld :: world where
  "exampleWorld = \<lparr> live = {''old1'', ''new1'', ''old2'', ''other''}, cloudflareClient = None \<rparr>"

section \<open>The random key generator\<close>

subsection \<open>The bit width\<close>

lemma bitsLoop_ge: "y \<le> bitsLoop y n"
  by (induction y n rule: bitsLoop.induct) (subst bitsLoop.simps, auto)

lemma bitsLoop_upper: "n \<le> 2 ^ bitsLoop y n"
  by (induction y n rule: bitsLoop.induct) (subst bitsLoop.simps, auto)

lemma bitsLoop_least: "y \<le> b \<Longrightarrow> n \<le> 2 ^ b \<Longrightarrow> bitsLoop y n \<le> b"
proof (induction y n rule: bitsLoop.induct)
  case (1 y n)
  show ?case
  proof (cases "2 ^ y < n")
    case True
    have "y \<noteq> b" using True 1(3) by auto
    then have "y + 1 \<le> b" using 1(2) by simp
    then show ?thesis using 1 True by (subst bitsLoop.simps) simp
  next
    case False
    then show ?thesis using 1 by (subst bitsLoop.simps) simp
  qed
qed

lemma indexBits_NewStringGenerator: "indexBits (NewStringGenerator b) = bitsLoop 1 (length b)"
  by (simp add: NewStringGenerator_def Let_def)

lemma length_default_base: "length (OBJECT_KEY_BASE default_config) = 58"
  by (simp add: default_config_def)

text \<open>
  C8. For a base of 1, 2, 3, 4, 5, 58, 64 or 65 bytes the constructor computes the index
  width 1, 1, 2, 2, 3, 6, 6, 7; for every base the width is the least \<open>y \<ge> 1\<close> with
  \<open>2 ^ y\<close> at least the length of the base.
\<close>

theorem NewStringGenerator_indexBits:
  "((length b, bits) \<in> set [(1, 1), (2, 1), (3, 2), (4, 2), (5, 3), (58, 6), (64, 6), (65, 7)]
      \<longrightarrow> indexBits (NewStringGenerator b) = bits)
   \<and> 1 \<le> indexBits (NewStringGenerator b)
   \<and> length b \<le> 2 ^ indexBits (NewStringGenerator b)
   \<and> (\<forall>y. 1 \<le> y \<and> length b \<le> 2 ^ y \<longrightarrow> indexBits (NewStringGenerator b) \<le> y)"
proof (intro conjI impI allI)
  assume "(length b, bits) \<in> set [(1, 1), (2, 1), (3, 2), (4, 2), (5, 3), (58, 6), (64, 6), (65, 7)]"
  then consider "length b = 1 \<and> bits = 1" | "length b = 2 \<and> bits = 1" | "length b = 3 \<and> bits = 2"
    | "length b = 4 \<and> bits = 2" | "length b = 5 \<and> bits = 3" | "length b = 58 \<and> bits = 6"
    | "length b = 64 \<and> bits = 6" | "length b = 65 \<and> bits = 7"
    by auto
  then show "indexBits (NewStringGenerator b) = bits"
    by cases (simp_all add: indexBits_NewStringGenerator bitsLoop.simps)
next
  show "1 \<le> indexBits (NewStringGenerator b)"
    unfolding indexBits_NewStringGenerator by (rule bitsLoop_ge)
next
  show "length b \<le> 2 ^ indexBits (NewStringGenerator b)"
    unfolding indexBits_NewStringGenerator by (rule bitsLoop_upper)
next
  fix y :: nat
  assume "1 \<le> y \<and> length b \<le> 2 ^ y"
  then show "indexBits (NewStringGenerator b) \<le> y"
    unfolding indexBits_NewStringGenerator by (simp add: bitsLoop_least)
qed

theorem NewStringGenerator_indexBits_witness:
  "(length (OBJECT_KEY_BASE default_config), 6)
      \<in> set [(1, 1), (2, 1), (3, 2), (4, 2), (5, 3), (58, 6), (64, 6), (65, 7::nat)]
   \<and> indexBits (NewStringGenerator (OBJECT_KEY_BASE default_config)) = 6
   \<and> (1::nat) \<le> 6 \<and> length (OBJECT_KEY_BASE default_config) \<le> 2 ^ 6"
proof -
  have h: "(length (OBJECT_KEY_BASE default_config), 6)
      \<in> set [(1, 1), (2, 1), (3, 2), (4, 2), (5, 3), (58, 6), (64, 6), (65, 7::nat)]"
    by (simp add: length_default_base)
  from NewStringGenerator_indexBits[of "OBJECT_KEY_BASE default_config" 6] h
  have "indexBits (NewStringGenerator (OBJECT_KEY_BASE default_config)) = 6" by blast
  with h show ?thesis by (simp add: length_default_base)
qed

subsection \<open>\<open>Generate\<close>\<close>

lemma Int63_nonneg: "0 \<le> Int63 src k"
  by (simp add: Int63_def)

lemma indexMask_nonneg: "0 \<le> indexMask (NewStringGenerator b)"
  by (simp add: NewStringGenerator_def Let_def)

lemma NewStringGenerator_fields:
  "base (NewStringGenerator b) = b" "baseLength (NewStringGenerator b) = length b"
  by (simp_all add: NewStringGenerator_def Let_def)

text \<open>
  Whatever the fuel, a run of the loop that ends has appended exactly \<open>i + 1\<close> bytes
  of the base and has not panicked.
\<close>

lemma Generate_loop_sound:
  assumes "0 \<le> indexMask rsg" "baseLength rsg = length (base rsg)" "0 \<le> cache" "- 1 \<le> i"
    and "Generate_loop fuel rsg src pos i cache remain builder = Some r"
  shows "\<exists>s pos'. r = Return (builder @ s, pos') \<and> int (length s) = i + 1
           \<and> set s \<subseteq> set (base rsg)"
  using assms
proof (induction fuel arbitrary: pos i cache remain builder)
  case 0
  then show ?case by (auto split: if_splits)
next
  case (Suc fuel)
  show ?case
  proof (cases "0 \<le> i")
    case False
    then show ?thesis using Suc.prems(4,5) by auto
  next
    case True
    define cache1 where "cache1 = (if remain = 0 then Int63 src pos else cache)"
    define pos1 where "pos1 = (if remain = 0 then pos + 1 else pos)"
    define remain1 where "remain1 = (if remain = 0 then int (indexMax rsg) else remain)"
    define index where "index = cache1 AND indexMask rsg"
    have c1: "0 \<le> cache1" using Suc.prems(3) by (simp add: cache1_def Int63_nonneg)
    have idx0: "0 \<le> index" using c1 by (simp add: index_def)
    have c2: "0 \<le> drop_bit (indexBits rsg) cache1" using c1 by simp
    show ?thesis
    proof (cases "index < int (baseLength rsg)")
      case acc: True
      have step: "Generate_loop (Suc fuel) rsg src pos i cache remain builder =
          Generate_loop fuel rsg src pos1 (i - 1) (drop_bit (indexBits rsg) cache1) (remain1 - 1)
            (builder @ [base rsg ! nat index])"
        using True acc Suc.prems(1,2)
        by (simp add: Let_def cache1_def pos1_def remain1_def index_def not_less)
      have i1: "- 1 \<le> i - 1" using True by simp
      from Suc.IH[OF Suc.prems(1,2) c2 i1 Suc.prems(5)[unfolded step]]
      obtain s pos' where r: "r = Return ((builder @ [base rsg ! nat index]) @ s, pos')"
        and len: "int (length s) = i - 1 + 1" and sub: "set s \<subseteq> set (base rsg)" by blast
      have mem: "base rsg ! nat index \<in> set (base rsg)"
        using acc idx0 Suc.prems(2) by simp
      have "r = Return (builder @ (base rsg ! nat index # s), pos')" using r by simp
      moreover have "int (length (base rsg ! nat index # s)) = i + 1" using len by simp
      moreover have "set (base rsg ! nat index # s) \<subseteq> set (base rsg)" using sub mem by simp
      ultimately show ?thesis by blast
    next
      case rej: False
      have step: "Generate_loop (Suc fuel) rsg src pos i cache remain builder =
          Generate_loop fuel rsg src pos1 i (drop_bit (indexBits rsg) cache1) (remain1 - 1) builder"
        using True rej
        by (simp add: Let_def cache1_def pos1_def remain1_def index_def)
      from Suc.IH[OF Suc.prems(1,2) c2 Suc.prems(4) Suc.prems(5)[unfolded step]]
      show ?thesis .
    qed
  qed
qed

text \<open>
  Once the indices of the first \<open>fuel\<close> rounds hold \<open>i + 1\<close> accepted ones, the loop
  ends within that fuel, and it has appended the bytes at the first \<open>i + 1\<close> accepted
  indices.
\<close>

lemma Generate_loop_accepts:
  assumes "0 \<le> indexMask rsg" "baseLength rsg = length (base rsg)" "0 \<le> cache"
    and "nat (i + 1) \<le> length (filter (\<lambda>x. x < int (baseLength rsg))
           (candidates fuel rsg src pos cache remain))"
  shows "\<exists>pos'. Generate_loop fuel rsg src pos i cache remain builder =
           Some (Return (builder @ map (\<lambda>x. base rsg ! nat x)
              (take (nat (i + 1)) (filter (\<lambda>x. x < int (baseLength rsg))
                 (candidates fuel rsg src pos cache remain))), pos'))"
  using assms
proof (induction fuel arbitrary: pos i cache remain builder)
  case 0
  then show ?case by simp
next
  case (Suc fuel)
  show ?case
  proof (cases "0 \<le> i")
    case False
    then show ?thesis by simp
  next
    case True
    define cache1 where "cache1 = (if remain = 0 then Int63 src pos else cache)"
    define pos1 where "pos1 = (if remain = 0 then pos + 1 else pos)"
    define remain1 where "remain1 = (if remain = 0 then int (indexMax rsg) else remain)"
    define index where "index = cache1 AND indexMask rsg"
    have c1: "0 \<le> cache1" using Suc.prems(3) by (simp add: cache1_def Int63_nonneg)
    have c2: "0 \<le> drop_bit (indexBits rsg) cache1" using c1 by simp
    have cands: "candidates (Suc fuel) rsg src pos cache remain =
        index # candidates fuel rsg src pos1 (drop_bit (indexBits rsg) cache1) (remain1 - 1)"
      by (simp add: Let_def cache1_def pos1_def remain1_def index_def)
    show ?thesis
    proof (cases "index < int (baseLength rsg)")
      case acc: True
      have le: "nat ((i - 1) + 1) \<le> length (filter (\<lambda>x. x < int (baseLength rsg))
           (candidates fuel rsg src pos1 (drop_bit (indexBits rsg) cache1) (remain1 - 1)))"
        using Suc.prems(4) True acc unfolding cands by simp
      from Suc.IH[OF Suc.prems(1,2) c2 le, of "builder @ [base rsg ! nat index]"]
      obtain pos' where r: "Generate_loop fuel rsg src pos1 (i - 1)
            (drop_bit (indexBits rsg) cache1) (remain1 - 1) (builder @ [base rsg ! nat index]) =
          Some (Return ((builder @ [base rsg ! nat index]) @
             map (\<lambda>x. base rsg ! nat x) (take (nat (i - 1 + 1))
               (filter (\<lambda>x. x < int (baseLength rsg))
                 (candidates fuel rsg src pos1 (drop_bit (indexBits rsg) cache1) (remain1 - 1)))),
             pos'))"
        by blast
      have tk: "take (nat (i + 1)) (index # xs) = index # take (nat (i - 1 + 1)) xs" for xs
        using True by (simp add: take_Cons' nat_diff_distrib nat_add_distrib)
      have "Generate_loop (Suc fuel) rsg src pos i cache remain builder =
          Generate_loop fuel rsg src pos1 (i - 1) (drop_bit (indexBits rsg) cache1) (remain1 - 1)
            (builder @ [base rsg ! nat index])"
        using True acc Suc.prems(1,2)
        by (simp add: Let_def cache1_def pos1_def remain1_def index_def not_less)
      then show ?thesis using r acc unfolding cands by (simp add: tk)
    next
      case rej: False
      have le: "nat (i + 1) \<le> length (filter (\<lambda>x. x < int (baseLength rsg))
           (candidates fuel rsg src pos1 (drop_bit (indexBits rsg) cache1) (remain1 - 1)))"
        using Suc.prems(4) rej unfolding cands by simp
      from Suc.IH[OF Suc.prems(1,2) c2 le, of builder]
      obtain pos' where r: "Generate_loop fuel rsg src pos1 i
            (drop_bit (indexBits rsg) cache1) (remain1 - 1) builder =
          Some (Return (builder @
             map (\<lambda>x. base rsg ! nat x) (take (nat (i + 1))
               (filter (\<lambda>x. x < int (baseLength rsg))
                 (candidates fuel rsg src pos1 (drop_bit (indexBits rsg) cache1) (remain1 - 1)))),
             pos'))"
        by blast
      have "Generate_loop (Suc fuel) rsg src pos i cache remain builder =
          Generate_loop fuel rsg src pos1 i (drop_bit (indexBits rsg) cache1) (remain1 - 1) builder"
        using True rej
        by (simp add: Let_def cache1_def pos1_def remain1_def index_def)
      then show ?thesis using r rej unfolding cands by simp
    qed
  qed
qed

lemma candidates_numeral:
  "candidates (numeral k) rsg src pos cache remain =
     (let cache1 = (if remain = 0 then Int63 src pos else cache);
          pos1 = (if remain = 0 then pos + 1 else pos);
          remain1 = (if remain = 0 then int (indexMax rsg) else remain)
      in (cache1 AND indexMask rsg)
           # candidates (pred_numeral k) rsg src pos1 (drop_bit (indexBits rsg) cache1)
               (remain1 - 1))"
  by (simp add: numeral_eq_Suc)

lemma NewStringGenerator_default:
  "NewStringGenerator (OBJECT_KEY_BASE default_config) =
     \<lparr> base = OBJECT_KEY_BASE default_config, baseLength = 58, indexBits = 6,
       indexMask = 63, indexMax = 10 \<rparr>"
  by (simp add: NewStringGenerator_def length_default_base bitsLoop.simps)

lemma accepted_default_zero_source:
  "accepted 4 (NewStringGenerator (OBJECT_KEY_BASE default_config)) (\<lambda>_. 0) 0 = [0, 0, 0, 0]"
  by (simp add: NewStringGenerator_default accepted_def Int63_def candidates_numeral)

text \<open>
  C7. For a non-empty base and a length \<open>L \<ge> 0\<close>, \<open>Generate\<close> returns a string of
  exactly \<open>L\<close> bytes, each of them a byte of the base at an accepted index, and it never
  panics. The loop is rejection sampling on a random source, so that it ends is a
  property of the source: it ends as soon as the indices cut from the draws hold \<open>L\<close>
  values below the length of the base (\<open>accepted\<close>, which \<open>accepted_chunks\<close> reads off
  the draws), and \<open>n\<close> rounds of fuel are then enough. With any fuel, a run that ends
  has this result.
\<close>

theorem Generate_returns_alphabet_string:
  assumes "b \<noteq> []" and "0 \<le> L"
    and "nat L \<le> length (accepted n (NewStringGenerator b) src pos)"
  shows "(\<exists>s pos'. Generate n (NewStringGenerator b) src pos L = Some (Return (s, pos'))
            \<and> s = map (\<lambda>index. b ! nat index)
                    (take (nat L) (accepted n (NewStringGenerator b) src pos))
            \<and> int (length s) = L \<and> set s \<subseteq> set b)
       \<and> (\<forall>fuel r. Generate fuel (NewStringGenerator b) src pos L = Some r \<longrightarrow>
            (\<exists>s pos'. r = Return (s, pos') \<and> int (length s) = L \<and> set s \<subseteq> set b))"
proof -
  let ?rsg = "NewStringGenerator b"
  have m: "0 \<le> indexMask ?rsg" by (rule indexMask_nonneg)
  have bl: "baseLength ?rsg = length (base ?rsg)" by (simp add: NewStringGenerator_fields)
  have sound: "\<exists>s pos'. r = Return (s, pos') \<and> int (length s) = L \<and> set s \<subseteq> set b"
    if "Generate fuel ?rsg src pos L = Some r" for fuel r
  proof -
    from that assms(2)
    have g: "Generate_loop fuel ?rsg src (pos + 1) (L - 1) (Int63 src pos)
               (int (indexMax ?rsg)) [] = Some r"
      by (simp add: Generate_def)
    have "- 1 \<le> L - 1" using assms(2) by simp
    from Generate_loop_sound[OF m bl Int63_nonneg this g]
    show ?thesis by (simp add: NewStringGenerator_fields)
  qed
  have le: "nat (L - 1 + 1) \<le> length (filter (\<lambda>x. x < int (baseLength ?rsg))
      (candidates n ?rsg src (pos + 1) (Int63 src pos) (int (indexMax ?rsg))))"
    using assms(3) by (simp add: accepted_def)
  from Generate_loop_accepts[OF m bl Int63_nonneg le, of "[]"]
  obtain pos' where run: "Generate n ?rsg src pos L =
      Some (Return (map (\<lambda>index. b ! nat index) (take (nat L) (accepted n ?rsg src pos)), pos'))"
    using assms(2) by (auto simp: Generate_def accepted_def NewStringGenerator_fields)
  from sound[OF run]
  have "int (length (map (\<lambda>index. b ! nat index) (take (nat L) (accepted n ?rsg src pos)))) = L
     \<and> set (map (\<lambda>index. b ! nat index) (take (nat L) (accepted n ?rsg src pos))) \<subseteq> set b"
    by simp
  with run sound show ?thesis by blast
qed

theorem Generate_returns_alphabet_string_witness:
  "OBJECT_KEY_BASE default_config \<noteq> [] \<and> (0::int) \<le> 4
   \<and> nat 4 \<le> length (accepted 4 (NewStringGenerator (OBJECT_KEY_BASE default_config)) (\<lambda>_. 0) 0)
   \<and> (\<exists>pos'. Generate 4 (NewStringGenerator (OBJECT_KEY_BASE default_config)) (\<lambda>_. 0) 0 4 =
          Some (Return (''1111'', pos')))"
proof -
  let ?b = "OBJECT_KEY_BASE default_config"
  have h1: "?b \<noteq> []" by (simp add: default_config_def)
  have h2: "(0::int) \<le> 4" by simp
  have h3: "nat 4 \<le> length (accepted 4 (NewStringGenerator ?b) (\<lambda>_. 0) 0)"
    by (simp add: accepted_default_zero_source)
  have v: "map (\<lambda>index. ?b ! nat index)
             (take (nat 4) (accepted 4 (NewStringGenerator ?b) (\<lambda>_. 0) 0)) = ''1111''"
    unfolding accepted_default_zero_source by (simp add: default_config_def)
  from Generate_returns_alphabet_string[OF h1 h2 h3]
  obtain s pos' where g: "Generate 4 (NewStringGenerator ?b) (\<lambda>_. 0) 0 4 = Some (Return (s, pos'))"
    and s: "s = map (\<lambda>index. ?b ! nat index)
                  (take (nat 4) (accepted 4 (NewStringGenerator ?b) (\<lambda>_. 0) 0))"
    by (elim conjE exE)
  have "\<exists>pos'. Generate 4 (NewStringGenerator ?b) (\<lambda>_. 0) 0 4 = Some (Return (''1111'', pos'))"
    using g unfolding s v by (rule exI)
  then show ?thesis using h1 h2 h3 by (intro conjI)
qed

lemma upt_Suc_shift: "[0..<Suc n] = 0 # map Suc [0..<n]"
  by (simp only: upt_conv_Cons[of 0 "Suc n", OF zero_less_Suc] map_Suc_upt)

text \<open>
  The indices the loop looks at are the successive chunks of \<open>indexBits\<close> bits of the
  draws, \<open>indexMax\<close> of them from each draw before the next draw is taken.
\<close>

lemma candidates_chunks_general:
  assumes "0 < indexMax rsg" and "j \<le> indexMax rsg"
    and "j < indexMax rsg \<longrightarrow> cache = drop_bit (indexBits rsg * j) (Int63 src d)"
  shows "candidates n rsg src (Suc d) cache (int (indexMax rsg) - int j)
       = map (\<lambda>k. chunk rsg src (d + (j + k) div indexMax rsg) ((j + k) mod indexMax rsg)) [0..<n]"
  using assms(2,3)
proof (induction n arbitrary: d j cache)
  case 0
  show ?case by simp
next
  case (Suc n)
  let ?m = "indexMax rsg"
  show ?case
  proof (cases "j = ?m")
    case True
    have one: "1 \<le> ?m" using assms(1) by simp
    have c: "1 < ?m \<longrightarrow> drop_bit (indexBits rsg) (Int63 src (Suc d))
               = drop_bit (indexBits rsg * 1) (Int63 src (Suc d))" by simp
    have ih: "candidates n rsg src (Suc (Suc d)) (drop_bit (indexBits rsg) (Int63 src (Suc d)))
                (int ?m - int 1)
        = map (\<lambda>k. chunk rsg src (Suc d + (1 + k) div ?m) ((1 + k) mod ?m)) [0..<n]"
      by (rule Suc.IH[OF one c])
    have step: "candidates (Suc n) rsg src (Suc d) cache (int ?m - int j)
        = (Int63 src (Suc d) AND indexMask rsg)
          # candidates n rsg src (Suc (Suc d)) (drop_bit (indexBits rsg) (Int63 src (Suc d)))
              (int ?m - int 1)"
      using True by (simp add: Let_def)
    have head: "chunk rsg src (d + (j + 0) div ?m) ((j + 0) mod ?m) = Int63 src (Suc d) AND indexMask rsg"
      using True assms(1) by (simp add: chunk_def)
    have tail: "chunk rsg src (d + (j + Suc k) div ?m) ((j + Suc k) mod ?m)
              = chunk rsg src (Suc d + (1 + k) div ?m) ((1 + k) mod ?m)" for k
    proof -
      have "(?m + Suc k) div ?m = Suc (Suc k div ?m)" "(?m + Suc k) mod ?m = Suc k mod ?m"
        using div_add_self1[of ?m "Suc k"] mod_add_self1[of ?m "Suc k"] assms(1) by simp_all
      then show ?thesis unfolding True by simp
    qed
    show ?thesis
      unfolding step ih
      by (subst upt_Suc_shift) (simp add: head[simplified] tail[simplified] comp_def del: upt_Suc)
  next
    case False
    then have lt: "j < ?m" using Suc.prems(1) by simp
    then have cache: "cache = drop_bit (indexBits rsg * j) (Int63 src d)" using Suc.prems(2) by simp
    have le: "Suc j \<le> ?m" using lt by simp
    have c: "Suc j < ?m \<longrightarrow> drop_bit (indexBits rsg) cache
               = drop_bit (indexBits rsg * Suc j) (Int63 src d)"
      by (simp add: cache add.commute)
    have ih: "candidates n rsg src (Suc d) (drop_bit (indexBits rsg) cache) (int ?m - int (Suc j))
        = map (\<lambda>k. chunk rsg src (d + (Suc j + k) div ?m) ((Suc j + k) mod ?m)) [0..<n]"
      by (rule Suc.IH[OF le c])
    have r: "int ?m - int j \<noteq> 0" using lt by simp
    have step: "candidates (Suc n) rsg src (Suc d) cache (int ?m - int j)
        = (cache AND indexMask rsg)
          # candidates n rsg src (Suc d) (drop_bit (indexBits rsg) cache) (int ?m - int (Suc j))"
      using r by (simp add: Let_def algebra_simps)
    have head: "chunk rsg src (d + (j + 0) div ?m) ((j + 0) mod ?m) = cache AND indexMask rsg"
      using lt by (simp add: chunk_def cache)
    show ?thesis
      unfolding step ih
      by (subst upt_Suc_shift) (simp add: head[simplified] comp_def del: upt_Suc)
  qed
qed

lemma accepted_chunks:
  assumes "0 < indexMax rsg"
  shows "accepted n rsg src pos
       = filter (\<lambda>index. index < int (baseLength rsg))
           (map (\<lambda>k. chunk rsg src (pos + k div indexMax rsg) (k mod indexMax rsg)) [0..<n])"
  using candidates_chunks_general[OF assms, of 0 "Int63 src pos" src pos n]
  by (simp add: accepted_def)

text \<open>
  When the length of the base is the power of two \<open>2 ^ indexBits\<close> (2, 4, 8, ..., 64
  bytes) every index is accepted, and \<open>Generate\<close> returns after exactly \<open>L\<close> rounds
  whatever the source draws.
\<close>

lemma length_candidates: "length (candidates n rsg src pos cache remain) = n"
  by (induction n arbitrary: pos cache remain) (simp_all add: Let_def)

lemma and_indexMask_less: "c AND (2 ^ k - 1) < (2 ^ k :: int)"
proof -
  have "c AND (2 ^ k - 1) = take_bit k c"
    by (simp add: take_bit_eq_mask mask_eq_exp_minus_1)
  then show ?thesis by simp
qed

lemma candidates_below_mask:
  assumes "indexMask rsg = 2 ^ indexBits rsg - 1"
  shows "\<forall>index\<in>set (candidates n rsg src pos cache remain). index < 2 ^ indexBits rsg"
  by (induction n arbitrary: pos cache remain) (simp_all add: Let_def assms and_indexMask_less)

lemma accepted_power_of_two:
  assumes "length b = 2 ^ indexBits (NewStringGenerator b)"
  shows "length (accepted n (NewStringGenerator b) src pos) = n"
proof -
  let ?rsg = "NewStringGenerator b"
  have m: "indexMask ?rsg = 2 ^ indexBits ?rsg - 1"
    by (simp add: NewStringGenerator_def Let_def)
  have "int (baseLength ?rsg) = 2 ^ indexBits ?rsg"
    using assms by (simp add: NewStringGenerator_fields)
  then have "filter (\<lambda>index. index < int (baseLength ?rsg))
          (candidates n ?rsg src (pos + 1) (Int63 src pos) (int (indexMax ?rsg)))
       = candidates n ?rsg src (pos + 1) (Int63 src pos) (int (indexMax ?rsg))"
    using candidates_below_mask[OF m] by (simp add: filter_id_conv)
  then show ?thesis by (simp add: accepted_def length_candidates)
qed

lemma Generate_power_of_two_base:
  assumes "length b = 2 ^ indexBits (NewStringGenerator b)" and "0 \<le> L"
  shows "\<exists>s pos'. Generate (nat L) (NewStringGenerator b) src pos L = Some (Return (s, pos'))
           \<and> int (length s) = L \<and> set s \<subseteq> set b"
proof -
  let ?rsg = "NewStringGenerator b"
  have m: "0 \<le> indexMask ?rsg" by (rule indexMask_nonneg)
  have bl: "baseLength ?rsg = length (base ?rsg)" by (simp add: NewStringGenerator_fields)
  have "nat (L - 1 + 1) \<le> length (filter (\<lambda>x. x < int (baseLength ?rsg))
      (candidates (nat L) ?rsg src (pos + 1) (Int63 src pos) (int (indexMax ?rsg))))"
    using accepted_power_of_two[OF assms(1), of "nat L" src pos] by (simp add: accepted_def)
  from Generate_loop_accepts[OF m bl Int63_nonneg this, of "[]"]
  obtain pos' s where run: "Generate_loop (nat L) ?rsg src (pos + 1) (L - 1) (Int63 src pos)
      (int (indexMax ?rsg)) [] = Some (Return (s, pos'))"
    by auto
  have "- 1 \<le> L - 1" using assms(2) by simp
  from Generate_loop_sound[OF m bl Int63_nonneg this run]
  have "int (length s) = L \<and> set s \<subseteq> set b" by (simp add: NewStringGenerator_fields)
  then show ?thesis using run assms(2) by (auto simp: Generate_def)
qed

section \<open>Names: escaping and the way back\<close>

lemma nibble_cases: "k < 16 \<Longrightarrow> k \<in> set [0, 1, 2, 3, 4, 5, 6, 7, 8, 9, 10, 11, 12, 13, 14, 15::nat]"
  by (simp; arith)

lemma upperhex_all:
  "list_all (\<lambda>k. ishex (upperhex ! k) \<and> unhex (upperhex ! k) = k \<and> upperhex ! k \<noteq> CHR ''+''
       \<and> upperhex ! k \<noteq> CHR 0x22)
     [0, 1, 2, 3, 4, 5, 6, 7, 8, 9, 10, 11, 12, 13, 14, 15]"
  by (simp add: upperhex_def ishex_def unhex_def)

lemma upperhex_digit:
  assumes "k < 16"
  shows "ishex (upperhex ! k)" "unhex (upperhex ! k) = k" "upperhex ! k \<noteq> CHR ''+''"
    "upperhex ! k \<noteq> CHR 0x22"
  using nibble_cases[OF assms] upperhex_all unfolding list_all_iff by blast+

lemma of_char_nibbles: "(of_char c :: nat) div 16 < 16" "(of_char c :: nat) mod 16 < 16"
proof -
  have "(of_char c :: nat) < 256" by simp
  then show "(of_char c :: nat) div 16 < 16" by (simp add: less_mult_imp_div_less)
  show "(of_char c :: nat) mod 16 < 16" by simp
qed

lemma unescaped_not_special:
  assumes "\<not> shouldEscape c"
  shows "c \<noteq> CHR ''%''" "c \<noteq> CHR ''+''" "c \<noteq> CHR 0x22" "c \<noteq> CHR '' ''"
  using assms by (auto simp: shouldEscape_def)

lemma ReplaceAll_append: "ReplaceAll (a @ b) old new = ReplaceAll a old new @ ReplaceAll b old new"
  by (simp add: ReplaceAll_def)

lemma nameByte_cases:
  obtains "c = CHR '' ''" "nameByte c = ''%20''"
  | "c \<noteq> CHR '' ''" "shouldEscape c"
      "nameByte c = [CHR ''%'', upperhex ! ((of_char c :: nat) div 16), upperhex ! ((of_char c :: nat) mod 16)]"
  | "c \<noteq> CHR '' ''" "\<not> shouldEscape c" "nameByte c = [c]"
  by (cases "c = CHR '' ''"; cases "shouldEscape c") (simp_all add: nameByte_def escapeByte_def)

lemma ReplaceAll_escapeByte: "ReplaceAll (escapeByte c) CHR ''+'' ''%20'' = nameByte c"
proof (cases "c = CHR '' ''")
  case True
  then show ?thesis by (simp add: ReplaceAll_def escapeByte_def nameByte_def)
next
  case False
  show ?thesis
  proof (cases "shouldEscape c")
    case True
    then show ?thesis using False
      by (simp add: ReplaceAll_def escapeByte_def nameByte_def upperhex_digit(3) of_char_nibbles)
  next
    case esc: False
    then show ?thesis using False unescaped_not_special(2)[OF esc]
      by (simp add: ReplaceAll_def escapeByte_def nameByte_def)
  qed
qed

lemma escapeName_concat: "escapeName n = concat (map nameByte n)"
proof (induction n)
  case Nil
  show ?case by (simp add: escapeName_def QueryEscape_def ReplaceAll_def)
next
  case (Cons c n)
  have "escapeName (c # n) = ReplaceAll (escapeByte c) CHR ''+'' ''%20'' @ escapeName n"
    by (simp add: escapeName_def QueryEscape_def ReplaceAll_append)
  then show ?case using Cons by (simp add: ReplaceAll_escapeByte)
qed

lemma nameByte_no_plus: "CHR ''+'' \<notin> set (nameByte c)"
proof (cases c rule: nameByte_cases)
  case 1
  then show ?thesis by simp
next
  case 2
  then show ?thesis by (simp add: upperhex_digit(3)[symmetric] of_char_nibbles)
next
  case 3
  then show ?thesis using unescaped_not_special(2)[of c] by auto
qed

lemma nameByte_no_quote: "CHR 0x22 \<notin> set (nameByte c)"
proof (cases c rule: nameByte_cases)
  case 1
  then show ?thesis by simp
next
  case 2
  then show ?thesis by (simp add: upperhex_digit(4)[symmetric] of_char_nibbles)
next
  case 3
  then show ?thesis using unescaped_not_special(3)[of c] by auto
qed

lemma escapeName_no_plus: "CHR ''+'' \<notin> set (escapeName n)"
  by (simp add: escapeName_concat nameByte_no_plus)

lemma escapeName_no_quote: "CHR 0x22 \<notin> set (escapeName n)"
  by (simp add: escapeName_concat nameByte_no_quote)

lemma byte_recombine: "char_of ((of_char c :: nat) div 16 * 16 + (of_char c :: nat) mod 16) = c"
  by simp

lemma unescape_check_nameByte: "unescape_check (nameByte c @ rest) = unescape_check rest"
proof (cases "c = CHR '' ''")
  case True
  then show ?thesis by (simp add: nameByte_def ishex_def)
next
  case False
  show ?thesis
  proof (cases "shouldEscape c")
    case True
    then show ?thesis using False
      by (simp add: nameByte_def escapeByte_def upperhex_digit(1) of_char_nibbles)
  next
    case esc: False
    then show ?thesis using False unescaped_not_special(1)[OF esc]
      by (simp add: nameByte_def escapeByte_def)
  qed
qed

lemma unescape_build_nameByte: "unescape_build (nameByte c @ rest) = c # unescape_build rest"
proof (cases "c = CHR '' ''")
  case True
  then show ?thesis by (simp add: nameByte_def unhex_def char_of_eq_iff take_bit_eq_mod)
next
  case False
  show ?thesis
  proof (cases "shouldEscape c")
    case True
    then show ?thesis using False
      by (simp add: nameByte_def escapeByte_def upperhex_digit(2) of_char_nibbles byte_recombine)
  next
    case esc: False
    then show ?thesis using False unescaped_not_special(1,2)[OF esc]
      by (simp add: nameByte_def escapeByte_def)
  qed
qed

lemma QueryUnescape_escapeName: "url_QueryUnescape (escapeName n) = Inr n"
proof -
  have "unescape_check (concat (map nameByte n)) = None
      \<and> unescape_build (concat (map nameByte n)) = n"
    by (induction n) (simp_all add: unescape_check_nameByte unescape_build_nameByte)
  then show ?thesis by (simp add: url_QueryUnescape_def escapeName_concat)
qed

lemma Split_no_sep: "sep \<notin> set a \<Longrightarrow> Split a sep = [a]"
proof (induction a)
  case Nil
  show ?case by simp
next
  case (Cons c a)
  then have "c \<noteq> sep" and "Split a sep = [a]" by auto
  then show ?case by simp
qed

lemma Split_at_sep: "sep \<notin> set a \<Longrightarrow> Split (a @ sep # rest) sep = a # Split rest sep"
proof (induction a)
  case Nil
  show ?case by simp
next
  case (Cons c a)
  then have "c \<noteq> sep" and "Split (a @ sep # rest) sep = a # Split rest sep" by auto
  then show ?case by simp
qed

lemma Split_contentDisposition:
  assumes "CHR 0x22 \<notin> set escaped"
  shows "Split (contentDisposition escaped) (CHR 0x22) = [''attachment; filename='', escaped, []]"
proof -
  have p: "CHR 0x22 \<notin> set ''attachment; filename=''" by simp
  have "Split (contentDisposition escaped) (CHR 0x22)
      = ''attachment; filename='' # Split (escaped @ CHR 0x22 # []) (CHR 0x22)"
    unfolding contentDisposition_def using Split_at_sep[OF p, of "escaped @ [CHR 0x22]"] by simp
  also have "Split (escaped @ CHR 0x22 # []) (CHR 0x22) = escaped # Split [] (CHR 0x22)"
    by (rule Split_at_sep[OF assms])
  finally show ?thesis by simp
qed

lemma objectValidate_name:
  "snd (objectValidate cfg None (Some n) sz) = Some (escapeName n)"
  by (simp add: objectValidate_def escapeName_def Let_def split: option.splits)

lemma recoverName_escapeName:
  "recoverName (Some (contentDisposition (escapeName n))) = Return (Inr n)"
  by (simp add: recoverName_def Split_contentDisposition[OF escapeName_no_quote]
      QueryUnescape_escapeName)

text \<open>
  The header that \<open>Store\<close> hands out carries the escaped name, so a stored object whose
  header is the one \<open>Store\<close> returned gives its name back in \<open>Retrieve\<close>.
\<close>

lemma Store_header:
  assumes "Store cfg env clock pos name sz = Some (Return ((Some obj, None), pos'))"
  shows "fst (objectValidate cfg None (Some name) (Some sz)) = None
       \<and> PresignedPutHeaders obj ''Content-Disposition'' = Some (contentDisposition (escapeName name))"
proof -
  obtain err name1 where v: "objectValidate cfg None (Some name) (Some sz) = (err, name1)"
    by (cases "objectValidate cfg None (Some name) (Some sz)")
  have n: "name1 = Some (escapeName name)"
    using objectValidate_name[of cfg name "Some sz"] v by simp
  have e: "err = None" using assms v by (cases err) (simp_all add: Store_def)
  have "PresignedPutHeaders obj ''Content-Disposition'' = Some (contentDisposition (escapeName name))"
    using assms v n e
    by (auto simp: Store_def Let_def split: option.splits outcome.splits sum.splits)
  then show ?thesis using v e by simp
qed

lemma Store_Retrieve_name:
  assumes "Store cfg env clock pos name sz = Some (Return ((Some stored, None), pos'))"
    and "HeadObject env' (S3_BUCKET cfg) key = Inr object"
    and "ContentDisposition object = PresignedPutHeaders stored ''Content-Disposition''"
    and "Retrieve cfg env' now key = Return (Some obj, None)"
  shows "Name obj = name"
proof -
  have "ContentDisposition object = Some (contentDisposition (escapeName name))"
    using Store_header[OF assms(1)] assms(3) by simp
  then have "recoverName (ContentDisposition object) = Return (Inr name)"
    by (simp add: recoverName_escapeName)
  then show ?thesis using assms(2,4)
    by (auto simp: Retrieve_def Object_zero_def split: option.splits sum.splits)
qed

lemma validate_a_plus_b_c:
  "objectValidate default_config None (Some ''a+b c'') None = (None, Some ''a%2Bb%20c'')"
  by (simp add: objectValidate_def default_config_def QueryEscape_def ReplaceAll_def
      escapeByte_def shouldEscape_def upperhex_def)

text \<open>
  C3. For every name whose escaped form passes validation, the line of \<open>Retrieve\<close> that
  recovers the name from the stored content-disposition header (split at the quotes,
  second field, \<open>QueryUnescape\<close>) yields exactly the original name; so whenever
  \<open>Retrieve\<close> returns an object for a stored header of this form, its \<open>Name\<close> is the
  original name.
\<close>

theorem name_round_trip:
  assumes "objectValidate cfg None (Some name) sz = (None, Some escaped)"
  shows "recoverName (Some (contentDisposition escaped)) = Return (Inr name)
       \<and> (\<forall>env now key object obj.
            HeadObject env (S3_BUCKET cfg) key = Inr object
            \<and> ContentDisposition object = Some (contentDisposition escaped)
            \<and> Retrieve cfg env now key = Return (Some obj, None)
            \<longrightarrow> Name obj = name)"
proof -
  have "snd (objectValidate cfg None (Some name) sz) = Some escaped" using assms by simp
  then have e: "escaped = escapeName name" by (simp add: objectValidate_name)
  have r: "recoverName (Some (contentDisposition escaped)) = Return (Inr name)"
    unfolding e by (rule recoverName_escapeName)
  have "Name obj = name"
    if "HeadObject env (S3_BUCKET cfg) key = Inr object"
      and "ContentDisposition object = Some (contentDisposition escaped)"
      and "Retrieve cfg env now key = Return (Some obj, None)" for env now key object obj
    using that r
    by (auto simp: Retrieve_def Object_zero_def split: option.splits sum.splits)
  with r show ?thesis by blast
qed

theorem name_round_trip_witness:
  "objectValidate default_config None (Some ''a+b c'') None = (None, Some ''a%2Bb%20c'')
   \<and> recoverName (Some (contentDisposition ''a%2Bb%20c'')) = Return (Inr ''a+b c'')"
  using name_round_trip[OF validate_a_plus_b_c] validate_a_plus_b_c by blast

lemma escapeByte_plus: "escapeByte CHR ''+'' = ''%2B''"
  by (simp add: escapeByte_def shouldEscape_def upperhex_def)

text \<open>
  C2, as amended. The escaped name that validation writes encodes a literal space as
  \<open>%20\<close> (\<open>QueryEscape\<close> writes the space as \<open>+\<close> and \<open>ReplaceAll\<close> turns that \<open>+\<close> into
  \<open>%20\<close>) and a literal \<open>+\<close> as \<open>%2B\<close>; no \<open>+\<close> is left in the escaped name.
\<close>

theorem name_escaping:
  "\<exists>escaped. snd (objectValidate cfg None (Some name) sz) = Some escaped
     \<and> escaped = concat (map (\<lambda>c. if c = CHR '' '' then ''%20''
                                else if c = CHR ''+'' then ''%2B'' else escapeByte c) name)
     \<and> CHR ''+'' \<notin> set escaped"
proof -
  have "nameByte = (\<lambda>c. if c = CHR '' '' then ''%20''
                        else if c = CHR ''+'' then ''%2B'' else escapeByte c)"
    by (rule ext) (simp add: nameByte_def escapeByte_plus)
  then have "escapeName name = concat (map (\<lambda>c. if c = CHR '' '' then ''%20''
                                else if c = CHR ''+'' then ''%2B'' else escapeByte c) name)"
    by (simp add: escapeName_concat)
  then show ?thesis using escapeName_no_plus[of name] by (simp add: objectValidate_name)
qed

lemma validate_plus: "objectValidate default_config None (Some ''+'') None = (None, Some ''%2B'')"
  by (simp add: objectValidate_def default_config_def QueryEscape_def ReplaceAll_def
      escapeByte_plus)

text \<open>
  C2 as stated fails: the name \<open>+\<close> is escaped to \<open>%2B\<close>, in which \<open>%20\<close> does not occur.
\<close>

theorem plus_is_not_percent20_counterexample:
  "snd (objectValidate default_config None (Some ''+'') None) = Some ''%2B''
   \<and> \<not> Contains ''%2B'' ''%20''"
  by (simp add: validate_plus)

section \<open>Validation of keys\<close>

lemma objectValidate_chars_iff:
  "objectValidate_chars cfg rs = None \<longleftrightarrow>
     (\<forall>r\<in>set rs. Contains (OBJECT_KEY_BASE cfg) (string_of_rune r))"
  by (induction rs) simp_all

lemma objectValidate_chars_error:
  "objectValidate_chars cfg rs \<noteq> None \<Longrightarrow> objectValidate_chars cfg rs = Some errObjectKeyInvalid"
  by (induction rs) (simp_all split: if_splits)

lemma objectValidate_key_only:
  "fst (objectValidate cfg (Some key) None None) = objectValidate_key cfg key"
  by (simp add: objectValidate_def split: option.splits)

lemma int64_double: "- (2 ^ 62) \<le> k \<Longrightarrow> k < 2 ^ 62 \<Longrightarrow> int64 (k * 2) = k * 2"
proof -
  assume a: "- (2 ^ 62) \<le> k" "k < 2 ^ 62"
  have "0 \<le> k * 2 + 2 ^ 63" "k * 2 + 2 ^ 63 < 2 ^ 64" using a by simp_all
  then have "(k * 2 + 2 ^ 63) mod 2 ^ 64 = k * 2 + 2 ^ 63" by (rule mod_pos_pos_trivial)
  then show ?thesis by (simp add: int64_def)
qed

lemma Contains_single: "Contains s [c] \<longleftrightarrow> c \<in> set s"
proof (induction s)
  case Nil
  show ?case by simp
next
  case (Cons a s)
  have "HasPrefix (a # s) [c] \<longleftrightarrow> a = c" by simp
  then show ?case using Cons by auto
qed

lemma Contains_first: "Contains s (p # ps) \<Longrightarrow> p \<in> set s"
  by (induction s) auto

lemma string_of_rune_ascii: "r < 128 \<Longrightarrow> string_of_rune r = [char_of r]"
  by (simp add: string_of_rune_def)

lemma of_char_char_of_small: "n < 256 \<Longrightarrow> (of_char (char_of (n::nat)) :: nat) = n"
  by simp

lemma string_of_rune_high:
  assumes "128 \<le> r"
  shows "\<exists>p ps. string_of_rune r = p # ps \<and> 128 \<le> (of_char p :: nat)"
proof -
  consider "r \<le> 0x7FF" | "0x7FF < r" "0x10FFFF < r \<or> (0xD800 \<le> r \<and> r \<le> 0xDFFF)"
    | "0x7FF < r" "\<not> (0x10FFFF < r \<or> (0xD800 \<le> r \<and> r \<le> 0xDFFF))" "r \<le> 0xFFFF"
    | "0xFFFF < r" "r \<le> 0x10FFFF"
    by linarith
  then show ?thesis
  proof cases
    case 1
    then have "r div 64 < 32" by simp
    then have "192 + r div 64 < 256" "128 \<le> 192 + r div 64" by simp_all
    then have "128 \<le> (of_char (char_of (192 + r div 64)) :: nat)"
      by (simp add: of_char_char_of_small)
    then show ?thesis using 1 assms by (simp add: string_of_rune_def)
  next
    case 2
    have "128 \<le> (of_char (char_of (224 + RuneError div 4096)) :: nat)"
      by (simp add: RuneError_def)
    moreover have "string_of_rune r = encode3 RuneError" using 2 by (auto simp: string_of_rune_def)
    ultimately show ?thesis by (simp add: encode3_def)
  next
    case 3
    then have "r div 4096 < 16" by simp
    then have "224 + r div 4096 < 256" "128 \<le> 224 + r div 4096" by simp_all
    then have "128 \<le> (of_char (char_of (224 + r div 4096)) :: nat)"
      by (simp add: of_char_char_of_small)
    moreover have "string_of_rune r = encode3 r" using 3 by (auto simp: string_of_rune_def)
    ultimately show ?thesis by (simp add: encode3_def)
  next
    case 4
    then have "r div 262144 < 5" by simp
    then have "240 + r div 262144 < 256" "128 \<le> 240 + r div 262144" by simp_all
    then have "128 \<le> (of_char (char_of (240 + r div 262144)) :: nat)"
      by (simp add: of_char_char_of_small)
    moreover have "string_of_rune r = [char_of (0xF0 + r div 262144), char_of (0x80 + (r div 4096) mod 64),
            char_of (0x80 + (r div 64) mod 64), char_of (0x80 + r mod 64)]"
      using 4 by (auto simp: string_of_rune_def)
    ultimately show ?thesis by simp
  qed
qed

lemma Decode_ascii: "(of_char c :: nat) < 128 \<Longrightarrow> DecodeRuneInString (c # t) = (of_char c, 1)"
  by (simp add: DecodeRuneInString_def)

lemma mod_window: "a * m \<le> s \<Longrightarrow> s < a * m + m \<Longrightarrow> s mod m = s - a * m" for s :: nat
  by (rule mod_nat_eqI) auto

lemma A2: "194 \<le> s0 \<Longrightarrow> s0 < 224 \<Longrightarrow> 128 \<le> (s0::nat) mod 32 * 64 + x"
  using mod_window[of 6 32 s0] by simp

lemma A3a: "160 \<le> s1 \<Longrightarrow> s1 \<le> 191 \<Longrightarrow> 128 \<le> (s1::nat) mod 64 * 64 + x"
  using mod_window[of 2 64 s1] by simp

lemma A3b: "225 \<le> s0 \<Longrightarrow> s0 < 240 \<Longrightarrow> 128 \<le> (s0::nat) mod 16 * 4096 + x"
  using mod_window[of 14 16 s0] by simp

lemma A4a: "144 \<le> s1 \<Longrightarrow> s1 \<le> 191 \<Longrightarrow> 128 \<le> (s1::nat) mod 64 * 4096 + x"
  using mod_window[of 2 64 s1] by simp

lemma A4b: "241 \<le> s0 \<Longrightarrow> s0 \<le> 244 \<Longrightarrow> 128 \<le> (s0::nat) mod 8 * 262144 + x"
  using mod_window[of 30 8 s0] by simp

lemma Decode_high:
  assumes "128 \<le> (of_char c :: nat)"
  shows "128 \<le> fst (DecodeRuneInString (c # t))"
proof -
  define s0 where "s0 = (of_char c :: nat)"
  define s1 where "s1 = (of_char ((c # t) ! 1) :: nat)"
  define s2 where "s2 = (of_char ((c # t) ! 2) :: nat)"
  define s3 where "s3 = (of_char ((c # t) ! 3) :: nat)"
  have s0: "128 \<le> s0" using assms by (simp add: s0_def)
  consider (bad) "s0 < 194 \<or> 244 < s0" | (c2) "194 \<le> s0" "s0 < 224"
    | (c3a) "s0 = 224" | (c3b) "225 \<le> s0" "s0 < 240" | (c4a) "s0 = 240" | (c4b) "241 \<le> s0" "s0 \<le> 244"
    by linarith
  then show ?thesis
  proof cases
    case bad
    then show ?thesis using s0
      by (auto simp: DecodeRuneInString_def s0_def[symmetric] RuneError_def)
  next
    case c2
    then show ?thesis using A2[OF c2]
      by (simp add: DecodeRuneInString_def Let_def s0_def[symmetric] RuneError_def)
  next
    case c3a
    then show ?thesis
      by (simp add: DecodeRuneInString_def Let_def s0_def[symmetric] RuneError_def not_less
          add.assoc A3a)
  next
    case c3b
    then show ?thesis using A3b[OF c3b]
      by (simp add: DecodeRuneInString_def Let_def s0_def[symmetric] RuneError_def add.assoc)
  next
    case c4a
    then show ?thesis
      by (simp add: DecodeRuneInString_def Let_def s0_def[symmetric] RuneError_def not_less
          add.assoc A4a)
  next
    case c4b
    then show ?thesis using A4b[OF c4b]
      by (simp add: DecodeRuneInString_def Let_def s0_def[symmetric] RuneError_def add.assoc)
  qed
qed

lemma ascii_alphabet_chars:
  assumes "\<forall>c\<in>set b. (of_char c :: nat) < 128"
  shows "(\<forall>r\<in>set (runes key). Contains b (string_of_rune r)) \<longleftrightarrow> set key \<subseteq> set b"
proof (induction key)
  case Nil
  show ?case by simp
next
  case (Cons c t)
  show ?case
  proof (cases "(of_char c :: nat) < 128")
    case True
    have "string_of_rune (of_char c) = [c]" using True by (simp add: string_of_rune_ascii)
    then show ?thesis using Cons True by (simp add: Decode_ascii Contains_single)
  next
    case False
    then have "128 \<le> fst (DecodeRuneInString (c # t))" by (simp add: Decode_high)
    from string_of_rune_high[OF this]
    obtain p ps where p: "string_of_rune (fst (DecodeRuneInString (c # t))) = p # ps"
      "128 \<le> (of_char p :: nat)" by blast
    have "\<not> Contains b (string_of_rune (fst (DecodeRuneInString (c # t))))"
    proof
      assume "Contains b (string_of_rune (fst (DecodeRuneInString (c # t))))"
      then have "p \<in> set b" unfolding p(1) by (rule Contains_first)
      then show False using assms p(2) by auto
    qed
    moreover have "c \<notin> set b" using assms False by auto
    ultimately show ?thesis by simp
  qed
qed

text \<open>
  C6. Validation of a key succeeds if and only if its length (in bytes, as \<open>len\<close> counts)
  lies between \<open>OBJECT_KEY_LENGTH\<close> and \<open>OBJECT_KEY_LENGTH*2\<close> and every character of
  the key occurs in \<open>OBJECT_KEY_BASE\<close>; otherwise the error is \<open>errObjectKeyInvalid\<close>, and
  no other. The characters are the ones \<open>range\<close> yields and "occurs" is
  \<open>strings.Contains\<close>; the doubled length is the product of Go \<open>int\<close>s. When the key
  length is below \<open>2^62\<close> in absolute value the product is the number \<open>2 * OBJECT_KEY_LENGTH\<close>,
  and when the alphabet is ASCII the condition on the characters is that every byte
  of the key is a byte of the alphabet. Both boundary lengths are inside the interval.
\<close>

theorem key_validation:
  "(fst (objectValidate cfg (Some key) None None) = None \<longleftrightarrow>
      OBJECT_KEY_LENGTH cfg \<le> int (length key)
      \<and> int (length key) \<le> int64 (OBJECT_KEY_LENGTH cfg * 2)
      \<and> (\<forall>character\<in>set (runes key).
            Contains (OBJECT_KEY_BASE cfg) (string_of_rune character)))
   \<and> (fst (objectValidate cfg (Some key) None None) \<noteq> None \<longrightarrow>
        fst (objectValidate cfg (Some key) None None) = Some errObjectKeyInvalid)
   \<and> (- (2 ^ 62) \<le> OBJECT_KEY_LENGTH cfg \<and> OBJECT_KEY_LENGTH cfg < 2 ^ 62 \<longrightarrow>
        int64 (OBJECT_KEY_LENGTH cfg * 2) = OBJECT_KEY_LENGTH cfg * 2)
   \<and> ((\<forall>c\<in>set (OBJECT_KEY_BASE cfg). (of_char c :: nat) < 128) \<longrightarrow>
        ((\<forall>character\<in>set (runes key).
             Contains (OBJECT_KEY_BASE cfg) (string_of_rune character))
         \<longleftrightarrow> set key \<subseteq> set (OBJECT_KEY_BASE cfg)))
   \<and> (0 \<le> OBJECT_KEY_LENGTH cfg \<and> OBJECT_KEY_LENGTH cfg < 2 ^ 62
        \<and> (int (length key) = OBJECT_KEY_LENGTH cfg
             \<or> int (length key) = OBJECT_KEY_LENGTH cfg * 2)
        \<and> (\<forall>character\<in>set (runes key).
              Contains (OBJECT_KEY_BASE cfg) (string_of_rune character))
        \<longrightarrow> fst (objectValidate cfg (Some key) None None) = None)"
proof (intro conjI impI)
  show "fst (objectValidate cfg (Some key) None None) = None \<longleftrightarrow>
      OBJECT_KEY_LENGTH cfg \<le> int (length key)
      \<and> int (length key) \<le> int64 (OBJECT_KEY_LENGTH cfg * 2)
      \<and> (\<forall>character\<in>set (runes key).
            Contains (OBJECT_KEY_BASE cfg) (string_of_rune character))"
    unfolding objectValidate_key_only objectValidate_key_def
    by (simp add: objectValidate_chars_iff not_less)
next
  assume "fst (objectValidate cfg (Some key) None None) \<noteq> None"
  then show "fst (objectValidate cfg (Some key) None None) = Some errObjectKeyInvalid"
    unfolding objectValidate_key_only objectValidate_key_def
    by (auto simp: objectValidate_chars_error split: if_splits)
next
  assume "- (2 ^ 62) \<le> OBJECT_KEY_LENGTH cfg \<and> OBJECT_KEY_LENGTH cfg < 2 ^ 62"
  then show "int64 (OBJECT_KEY_LENGTH cfg * 2) = OBJECT_KEY_LENGTH cfg * 2"
    by (simp add: int64_double)
next
  assume "\<forall>c\<in>set (OBJECT_KEY_BASE cfg). (of_char c :: nat) < 128"
  then show "(\<forall>character\<in>set (runes key).
             Contains (OBJECT_KEY_BASE cfg) (string_of_rune character))
         \<longleftrightarrow> set key \<subseteq> set (OBJECT_KEY_BASE cfg)"
    by (rule ascii_alphabet_chars)
next
  assume a: "0 \<le> OBJECT_KEY_LENGTH cfg \<and> OBJECT_KEY_LENGTH cfg < 2 ^ 62
        \<and> (int (length key) = OBJECT_KEY_LENGTH cfg
             \<or> int (length key) = OBJECT_KEY_LENGTH cfg * 2)
        \<and> (\<forall>character\<in>set (runes key).
              Contains (OBJECT_KEY_BASE cfg) (string_of_rune character))"
  then have "int64 (OBJECT_KEY_LENGTH cfg * 2) = OBJECT_KEY_LENGTH cfg * 2"
    by (simp add: int64_double)
  then have "\<not> (int (length key) < OBJECT_KEY_LENGTH cfg
         \<or> int64 (OBJECT_KEY_LENGTH cfg * 2) < int (length key))"
    using a by auto
  then show "fst (objectValidate cfg (Some key) None None) = None"
    unfolding objectValidate_key_only objectValidate_key_def
    using a by (simp add: objectValidate_chars_iff)
qed

lemma default_base_ascii: "\<forall>c\<in>set (OBJECT_KEY_BASE default_config). (of_char c :: nat) < 128"
  by (simp add: default_config_def)

lemma validate_1111: "fst (objectValidate default_config (Some ''1111'') None None) = None"
proof -
  have c: "objectValidate_chars default_config (runes ''1111'') = None"
    unfolding objectValidate_chars_iff ascii_alphabet_chars[OF default_base_ascii]
    by (simp add: default_config_def)
  have l: "\<not> (int (length ''1111'') < OBJECT_KEY_LENGTH default_config
         \<or> int64 (OBJECT_KEY_LENGTH default_config * 2) < int (length ''1111''))"
    by (simp add: default_config_def int64_def)
  show ?thesis
    unfolding objectValidate_key_only objectValidate_key_def using c l by simp
qed

theorem key_validation_witness:
  "fst (objectValidate default_config (Some ''1111'') None None) = None
   \<and> OBJECT_KEY_LENGTH default_config \<le> int (length ''1111'')
   \<and> int (length ''1111'') \<le> OBJECT_KEY_LENGTH default_config * 2
   \<and> - (2 ^ 62) \<le> OBJECT_KEY_LENGTH default_config \<and> OBJECT_KEY_LENGTH default_config < 2 ^ 62
   \<and> list_all (\<lambda>c. (of_char c :: nat) < 128) (OBJECT_KEY_BASE default_config)
   \<and> set ''1111'' \<subseteq> set (OBJECT_KEY_BASE default_config)"
proof -
  have r: "- (2 ^ 62) \<le> OBJECT_KEY_LENGTH default_config \<and> OBJECT_KEY_LENGTH default_config < 2 ^ 62"
    by (simp add: default_config_def)
  note k = key_validation[of default_config "''1111''"]
  from k r have d: "int64 (OBJECT_KEY_LENGTH default_config * 2) = OBJECT_KEY_LENGTH default_config * 2"
    by blast
  from k validate_1111 have v: "OBJECT_KEY_LENGTH default_config \<le> int (length ''1111'')
      \<and> int (length ''1111'') \<le> int64 (OBJECT_KEY_LENGTH default_config * 2)
      \<and> (\<forall>character\<in>set (runes ''1111'').
            Contains (OBJECT_KEY_BASE default_config) (string_of_rune character))"
    by blast
  from k default_base_ascii v have "set ''1111'' \<subseteq> set (OBJECT_KEY_BASE default_config)"
    by blast
  with v d r default_base_ascii validate_1111 show ?thesis by (simp add: list_all_iff)
qed

section \<open>\<open>Retrieve\<close> and the stored header\<close>

text \<open>
  C10. \<open>Retrieve\<close> dereferences the content-disposition header of the stored object and
  takes the second field of its split at \<open>"\<close> without a check: for a valid key whose
  stored object has no such header the dereference panics, and for one whose header
  holds no \<open>"\<close> the index is out of range; in neither case is an error returned.
\<close>

theorem Retrieve_malformed_header_panics:
  assumes "fst (objectValidate cfg (Some key) None None) = None"
    and "HeadObject env (S3_BUCKET cfg) key = Inr object"
  shows "(ContentDisposition object = None \<longrightarrow> Retrieve cfg env now key = Panic NilDereference)
       \<and> (\<forall>cd. ContentDisposition object = Some cd \<and> CHR 0x22 \<notin> set cd \<longrightarrow>
              Retrieve cfg env now key = Panic IndexOutOfRange)"
  using assms by (simp add: Retrieve_def recoverName_def Split_no_sep)

theorem Retrieve_malformed_header_panics_witness:
  "fst (objectValidate default_config (Some ''1111'') None None) = None
   \<and> Retrieve default_config (exampleEnv (\<lambda>bucket key. Inr (exampleHead None))) 0 ''1111''
       = Panic NilDereference
   \<and> CHR 0x22 \<notin> set ''inline''
   \<and> Retrieve default_config (exampleEnv (\<lambda>bucket key. Inr (exampleHead (Some ''inline'')))) 0 ''1111''
       = Panic IndexOutOfRange"
proof -
  have h1: "HeadObject (exampleEnv (\<lambda>bucket key. Inr (exampleHead None)))
              (S3_BUCKET default_config) ''1111'' = Inr (exampleHead None)"
    by (simp add: exampleEnv_def)
  have h2: "HeadObject (exampleEnv (\<lambda>bucket key. Inr (exampleHead (Some ''inline''))))
              (S3_BUCKET default_config) ''1111'' = Inr (exampleHead (Some ''inline''))"
    by (simp add: exampleEnv_def)
  have c1: "ContentDisposition (exampleHead None) = None" by (simp add: exampleHead_def)
  have c2: "ContentDisposition (exampleHead (Some ''inline'')) = Some ''inline''
            \<and> CHR 0x22 \<notin> set ''inline''"
    by (simp add: exampleHead_def)
  from Retrieve_malformed_header_panics[OF validate_1111 h1, of 0] c1
  have r1: "Retrieve default_config (exampleEnv (\<lambda>bucket key. Inr (exampleHead None))) 0 ''1111''
       = Panic NilDereference" by blast
  from Retrieve_malformed_header_panics[OF validate_1111 h2, of 0] c2
  have r2: "Retrieve default_config (exampleEnv (\<lambda>bucket key. Inr (exampleHead (Some ''inline'')))) 0 ''1111''
       = Panic IndexOutOfRange" by blast
  from validate_1111 r1 r2 c2 show ?thesis by (intro conjI) simp_all
qed

section \<open>The cache purge of \<open>Delete\<close>\<close>

text \<open>
  C9. With a CDN zone configured and none of the three credential shapes set, no
  constructor runs: \<open>cloudflareClient\<close>, \<open>nil\<close> since the start of the process, stays
  \<open>nil\<close>, and the result of \<open>purgeCache\<close> (and of a \<open>Delete\<close> whose store deletion
  succeeded) is the result of \<open>PurgeCache\<close> called on the \<open>nil\<close> client for the two
  paths of the key. No configuration error is returned.
\<close>

theorem purgeCache_without_credentials:
  assumes "CLOUDFLARE_ZONE cfg \<noteq> []"
    and "CLOUDFLARE_EMAIL cfg = [] \<or> CLOUDFLARE_KEY cfg = []"
    and "CLOUDFLARE_TOKEN cfg = []"
    and "CLOUDFLARE_USER_SERVICE_KEY cfg = []"
    and "cloudflareClient w = None"
  shows "purgeCache cfg cdn w obj =
           (PurgeCache cdn None (CLOUDFLARE_ZONE cfg)
              [CLOUDFLARE_HOST cfg @ ''/'' @ Key obj, CLOUDFLARE_HOST cfg @ ''/'' @ Key obj @ ''/''],
            w)
       \<and> (DeleteObject env (S3_BUCKET cfg) (Key obj) = None \<longrightarrow>
            Delete cfg env cdn w obj =
              (PurgeCache cdn None (CLOUDFLARE_ZONE cfg)
                 [CLOUDFLARE_HOST cfg @ ''/'' @ Key obj,
                  CLOUDFLARE_HOST cfg @ ''/'' @ Key obj @ ''/''],
               w \<lparr> live := live w - {Key obj} \<rparr>))"
proof -
  have p: "purgeCache cfg cdn w' obj =
           (PurgeCache cdn None (CLOUDFLARE_ZONE cfg)
              [CLOUDFLARE_HOST cfg @ ''/'' @ Key obj, CLOUDFLARE_HOST cfg @ ''/'' @ Key obj @ ''/''],
            w')" if "cloudflareClient w' = None" for w'
  proof -
    have "w' \<lparr> cloudflareClient := None \<rparr> = w'" using that by simp
    then show ?thesis using assms(1-4) that by (auto simp: purgeCache_def Let_def)
  qed
  show ?thesis using p[OF assms(5)] p[of "w \<lparr> live := live w - {Key obj} \<rparr>"] assms(5)
    by (simp add: Delete_def)
qed

theorem purgeCache_without_credentials_witness:
  "CLOUDFLARE_ZONE (default_config \<lparr> CLOUDFLARE_ZONE := ''zone'' \<rparr>) \<noteq> []
   \<and> CLOUDFLARE_EMAIL (default_config \<lparr> CLOUDFLARE_ZONE := ''zone'' \<rparr>) = []
   \<and> CLOUDFLARE_TOKEN (default_config \<lparr> CLOUDFLARE_ZONE := ''zone'' \<rparr>) = []
   \<and> CLOUDFLARE_USER_SERVICE_KEY (default_config \<lparr> CLOUDFLARE_ZONE := ''zone'' \<rparr>) = []
   \<and> purgeCache (default_config \<lparr> CLOUDFLARE_ZONE := ''zone'' \<rparr>) exampleCdn
         \<lparr> live = {''1111''}, cloudflareClient = None \<rparr> (Object_zero \<lparr> Key := ''1111'' \<rparr>)
       = (Panic NilDereference, \<lparr> live = {''1111''}, cloudflareClient = None \<rparr>)"
proof -
  let ?cfg = "default_config \<lparr> CLOUDFLARE_ZONE := ''zone'' \<rparr>"
  let ?w = "\<lparr> live = {''1111''}, cloudflareClient = None \<rparr>"
  have a1: "CLOUDFLARE_ZONE ?cfg \<noteq> []" by simp
  have a2: "CLOUDFLARE_EMAIL ?cfg = [] \<or> CLOUDFLARE_KEY ?cfg = []" by (simp add: default_config_def)
  have a3: "CLOUDFLARE_TOKEN ?cfg = []" by (simp add: default_config_def)
  have a4: "CLOUDFLARE_USER_SERVICE_KEY ?cfg = []" by (simp add: default_config_def)
  have a5: "cloudflareClient ?w = None" by simp
  have e: "CLOUDFLARE_EMAIL ?cfg = []" by (simp add: default_config_def)
  have n: "PurgeCache exampleCdn None z f = Panic NilDereference" for z f
    by (simp add: exampleCdn_def)
  from purgeCache_without_credentials[OF a1 a2 a3 a4 a5, of exampleCdn "Object_zero \<lparr> Key := ''1111'' \<rparr>"]
  have "purgeCache ?cfg exampleCdn ?w (Object_zero \<lparr> Key := ''1111'' \<rparr>) = (Panic NilDereference, ?w)"
    unfolding n by blast
  with a1 e a3 a4 show ?thesis by (intro conjI)
qed

section \<open>Allocation of a unique key\<close>

lemma Generate_loop_numeral:
  "Generate_loop (numeral k) rsg src pos i cache remain builder =
     (if 0 \<le> i then
        (let cache1 = (if remain = 0 then Int63 src pos else cache);
             pos1 = (if remain = 0 then pos + 1 else pos);
             remain1 = (if remain = 0 then int (indexMax rsg) else remain);
             index = cache1 AND indexMask rsg
         in if index < int (baseLength rsg) then
              (if index < 0 \<or> int (length (base rsg)) \<le> index then Some (Panic IndexOutOfRange)
               else Generate_loop (pred_numeral k) rsg src pos1 (i - 1)
                      (drop_bit (indexBits rsg) cache1) (remain1 - 1)
                      (builder @ [base rsg ! nat index]))
            else Generate_loop (pred_numeral k) rsg src pos1 i
                   (drop_bit (indexBits rsg) cache1) (remain1 - 1) builder)
      else Some (Return (builder, pos)))"
  by (simp add: numeral_eq_Suc)

lemma generateKey_example:
  "generateKey default_config (exampleEnv head) 0 = Some (Return (''1111'', 1))"
proof -
  have "Generate 4 (NewStringGenerator (OBJECT_KEY_BASE default_config)) (\<lambda>k. 0) 0 4
      = Some (Return (''1111'', 1))"
    unfolding NewStringGenerator_default
    by (simp add: Generate_def Generate_loop_numeral Int63_def default_config_def)
  moreover have "OBJECT_KEY_LENGTH default_config = 4" by (simp add: default_config_def)
  ultimately show ?thesis by (simp add: generateKey_def exampleEnv_def)
qed

text \<open>
  What the retry loop does with each outcome of the probe: \<open>NotFound\<close> returns the
  key; another AWS error code past the deadline returns
  \<open>errObjectKeyGenerationTookMaxDelay\<close> and an empty key, and before the deadline
  probes with a new key; no error at all, which is the probe finding the object, panics
  in the type assertion.
\<close>

lemma objectGenerateUniqueKey_loop_NotFound:
  "objectGenerateUniqueKey_loop cfg env maxDelay t_start clock pos key
     (Some (AwsError ''NotFound'')) = Some (Return ((key, None), pos))"
  by simp

lemma objectGenerateUniqueKey_loop_timeout:
  assumes "code \<noteq> ''NotFound''" and "now - t_start > maxDelay"
  shows "objectGenerateUniqueKey_loop cfg env maxDelay t_start (now # clock) pos key
     (Some (AwsError code)) = Some (Return (([], Some errObjectKeyGenerationTookMaxDelay), pos))"
  using assms by simp

lemma objectGenerateUniqueKey_loop_retry:
  assumes "code \<noteq> ''NotFound''" and "\<not> now - t_start > maxDelay"
    and "generateKey cfg env pos = Some (Return (key', pos'))"
  shows "objectGenerateUniqueKey_loop cfg env maxDelay t_start (now # clock) pos key
     (Some (AwsError code)) =
       objectGenerateUniqueKey_loop cfg env maxDelay t_start clock pos' key' (probe cfg env key')"
  using assms by simp

lemma objectGenerateUniqueKey_exists:
  assumes "generateKey cfg env pos = Some (Return (key, pos'))"
    and "HeadObject env (S3_BUCKET cfg) key = Inr object"
  shows "objectGenerateUniqueKey cfg env maxDelay (t_start # clock) pos
           = Some (Panic TypeAssertionOnNil)"
  using assms by (simp add: objectGenerateUniqueKey_def probe_def)

text \<open>
  C1 at a store in which the first candidate key exists (every \<open>HeadObject\<close> succeeds):
  the allocation does not retry and does not time out, it panics.
\<close>

theorem objectGenerateUniqueKey_existing_key_panics:
  "objectGenerateUniqueKey default_config
     (exampleEnv (\<lambda>bucket key. Inr (exampleHead (Some (contentDisposition ''report.pdf'')))))
     (OBJECT_KEY_DELAY_MAX default_config) [0, 1000000, 2000000] 0
   = Some (Panic TypeAssertionOnNil)"
proof -
  have "probe default_config
          (exampleEnv (\<lambda>bucket key. Inr (exampleHead (Some (contentDisposition ''report.pdf'')))))
          ''1111'' = None"
    by (simp add: probe_def exampleEnv_def)
  then show ?thesis
    by (simp add: objectGenerateUniqueKey_def generateKey_example)
qed

section \<open>\<open>List\<close>: stitching the pages\<close>

lemma List_loop_done:
  "List_loop cfg responses False \<lparr> Contents = cs, IsTruncated = False \<rparr> objects requests
     = Some (Return (objects, None), requests)"
  by (subst List_loop.simps) simp

lemma List_loop_first:
  "List_loop cfg responses True out objects requests
     = List_loop cfg responses False out (objects @ map listedObject (Contents out)) requests"
  by (subst List_loop.simps) simp

lemma List_loop_next:
  assumes "objects \<noteq> []"
  shows "List_loop cfg (page tr entries # responses) False \<lparr> Contents = cs, IsTruncated = True \<rparr>
           objects requests
     = List_loop cfg responses False \<lparr> Contents = entries, IsTruncated = tr \<rparr>
         (objects @ map listedObject entries)
         (requests @ [listInput cfg (Some (Key (last objects)))])"
  using assms by (subst List_loop.simps) (simp add: page_def)

lemma List_loop_pages:
  assumes "objects \<noteq> []"
  shows "List_loop cfg (map (page True) pre @ page False lastp # rest) False
           \<lparr> Contents = cs, IsTruncated = True \<rparr> objects requests
     = Some (Return (objects @ map listedObject (concat pre @ lastp), None),
             requests @ map (\<lambda>k. listInput cfg
                 (Some (Key (last (objects @ map listedObject (concat (take k pre)))))))
               [0..<Suc (length pre)])"
  using assms
proof (induction pre arbitrary: objects requests cs)
  case Nil
  then show ?case by (simp add: List_loop_next List_loop_done)
next
  case (Cons p ps)
  have ne: "objects @ map listedObject p \<noteq> []" using Cons.prems by simp
  have "List_loop cfg (map (page True) (p # ps) @ page False lastp # rest) False
           \<lparr> Contents = cs, IsTruncated = True \<rparr> objects requests
      = List_loop cfg (map (page True) ps @ page False lastp # rest) False
           \<lparr> Contents = p, IsTruncated = True \<rparr> (objects @ map listedObject p)
           (requests @ [listInput cfg (Some (Key (last objects)))])"
    using List_loop_next[OF Cons.prems] by simp
  also have "\<dots> = Some (Return ((objects @ map listedObject p)
                              @ map listedObject (concat ps @ lastp), None),
             (requests @ [listInput cfg (Some (Key (last objects)))])
               @ map (\<lambda>k. listInput cfg
                 (Some (Key (last ((objects @ map listedObject p)
                                     @ map listedObject (concat (take k ps)))))))
               [0..<Suc (length ps)])"
    by (rule Cons.IH[OF ne])
  also have "\<dots> = Some (Return (objects @ map listedObject (concat (p # ps) @ lastp), None),
             requests @ map (\<lambda>k. listInput cfg
                 (Some (Key (last (objects @ map listedObject (concat (take k (p # ps))))))))
               [0..<Suc (length (p # ps))])"
    by (subst (2) upt_Suc_shift) (simp add: comp_def del: upt_Suc)
  finally show ?case .
qed

lemma Key_last_listed: "xs \<noteq> [] \<Longrightarrow> Key (last (map listedObject xs)) = fst (last xs)"
  by (simp add: last_map listedObject_def)

lemma concat_take_nonempty: "pre \<noteq> [] \<Longrightarrow> hd pre \<noteq> [] \<Longrightarrow> concat (take (Suc k) pre) \<noteq> []"
  by (cases pre) simp_all

lemma listedObject_eq:
  "listedObject = (\<lambda>entry. Object_zero \<lparr> Key := fst entry, LastModified := snd entry \<rparr>)"
  by (rule ext) (simp add: listedObject_def)

text \<open>
  What \<open>List\<close> does with a well-formed listing. For every sequence of answers of the
  store that starts with pages reporting truncation, the first of which holds at least
  one object, followed by a page that reports none, \<open>List\<close> returns the concatenation
  of these pages, each object the zero \<open>Object\<close> with its key and last-modified time
  set; it sends one request per page, all with the configured bucket and max-keys, the
  first without \<open>StartAfter\<close> and each later one with the key of the last object
  accumulated so far; and it reads nothing after the page without truncation. One empty
  page without truncation gives the empty sequence and no error.
\<close>

theorem List_stitches_pages:
  assumes "responses = map (\<lambda>entries. Inr \<lparr> Contents = entries, IsTruncated = True \<rparr>) pre
                         @ Inr \<lparr> Contents = lastp, IsTruncated = False \<rparr> # rest"
    and "pre = [] \<or> hd pre \<noteq> []"
  shows "List cfg responses =
           Some (Return (map (\<lambda>entry. Object_zero \<lparr> Key := fst entry, LastModified := snd entry \<rparr>)
                           (concat pre @ lastp), None),
                 \<lparr> ListBucket = S3_BUCKET cfg, MaxKeys = S3_LIST_OBJECTS_MAX_KEYS cfg,
                   StartAfter = None \<rparr>
                 # map (\<lambda>k. \<lparr> ListBucket = S3_BUCKET cfg, MaxKeys = S3_LIST_OBJECTS_MAX_KEYS cfg,
                              StartAfter = Some (fst (last (concat (take (Suc k) pre)))) \<rparr>)
                     [0..<length pre])
       \<and> List cfg (Inr \<lparr> Contents = [], IsTruncated = False \<rparr> # rest) =
           Some (Return ([], None),
                 [\<lparr> ListBucket = S3_BUCKET cfg, MaxKeys = S3_LIST_OBJECTS_MAX_KEYS cfg,
                    StartAfter = None \<rparr>])"
proof
  have r: "responses = map (page True) pre @ page False lastp # rest"
    using assms(1) by (simp add: page_def[abs_def])
  show "List cfg responses =
           Some (Return (map (\<lambda>entry. Object_zero \<lparr> Key := fst entry, LastModified := snd entry \<rparr>)
                           (concat pre @ lastp), None),
                 \<lparr> ListBucket = S3_BUCKET cfg, MaxKeys = S3_LIST_OBJECTS_MAX_KEYS cfg,
                   StartAfter = None \<rparr>
                 # map (\<lambda>k. \<lparr> ListBucket = S3_BUCKET cfg, MaxKeys = S3_LIST_OBJECTS_MAX_KEYS cfg,
                              StartAfter = Some (fst (last (concat (take (Suc k) pre)))) \<rparr>)
                     [0..<length pre])"
  proof (cases pre)
    case Nil
    then show ?thesis unfolding r
      by (simp add: List_def page_def List_loop_first List_loop_done listInput_def listedObject_eq)
  next
    case (Cons p ps)
    then have p: "p \<noteq> []" using assms(2) by simp
    then have ne: "[] @ map listedObject p \<noteq> []" by simp
    have cur: "Key (last (([] @ map listedObject p) @ map listedObject (concat (take k ps))))
        = fst (last (concat (take (Suc k) pre)))" for k
      using Key_last_listed[of "concat (take (Suc k) pre)"] p Cons by simp
    have "List cfg responses = List_loop cfg (map (page True) ps @ page False lastp # rest) False
           \<lparr> Contents = p, IsTruncated = True \<rparr> ([] @ map listedObject p) [listInput cfg None]"
      unfolding r Cons by (simp add: List_def page_def List_loop_first)
    also have "\<dots> = Some (Return (([] @ map listedObject p) @ map listedObject (concat ps @ lastp), None),
             [listInput cfg None] @ map (\<lambda>k. listInput cfg
                 (Some (Key (last (([] @ map listedObject p) @ map listedObject (concat (take k ps)))))))
               [0..<Suc (length ps)])"
      by (rule List_loop_pages[OF ne])
    finally show ?thesis unfolding cur using Cons
      by (simp add: listInput_def listedObject_eq del: upt_Suc)
  qed
next
  show "List cfg (Inr \<lparr> Contents = [], IsTruncated = False \<rparr> # rest) =
           Some (Return ([], None),
                 [\<lparr> ListBucket = S3_BUCKET cfg, MaxKeys = S3_LIST_OBJECTS_MAX_KEYS cfg,
                    StartAfter = None \<rparr>])"
    by (simp add: List_def List_loop_first List_loop_done listInput_def)
qed

theorem List_stitches_pages_witness:
  "hd [[(''a'', 1), (''b'', 2)], [], [(''c'', 3 :: int)]] \<noteq> []
   \<and> List default_config
        [Inr \<lparr> Contents = [(''a'', 1), (''b'', 2)], IsTruncated = True \<rparr>,
         Inr \<lparr> Contents = [], IsTruncated = True \<rparr>,
         Inr \<lparr> Contents = [(''c'', 3)], IsTruncated = True \<rparr>,
         Inr \<lparr> Contents = [(''d'', 4)], IsTruncated = False \<rparr>,
         Inl (OtherError ''never asked'')]
      = Some (Return ([Object_zero \<lparr> Key := ''a'', LastModified := 1 \<rparr>,
                       Object_zero \<lparr> Key := ''b'', LastModified := 2 \<rparr>,
                       Object_zero \<lparr> Key := ''c'', LastModified := 3 \<rparr>,
                       Object_zero \<lparr> Key := ''d'', LastModified := 4 \<rparr>], None),
              [\<lparr> ListBucket = ''bucket'', MaxKeys = 1000, StartAfter = None \<rparr>,
               \<lparr> ListBucket = ''bucket'', MaxKeys = 1000, StartAfter = Some ''b'' \<rparr>,
               \<lparr> ListBucket = ''bucket'', MaxKeys = 1000, StartAfter = Some ''b'' \<rparr>,
               \<lparr> ListBucket = ''bucket'', MaxKeys = 1000, StartAfter = Some ''c'' \<rparr>])"
proof -
  let ?pre = "[[(''a'', 1), (''b'', 2)], [], [(''c'', 3 :: int)]]"
  have h: "?pre = [] \<or> hd ?pre \<noteq> []" by simp
  have u: "[0..<length ?pre] = [0, 1, 2]" by (simp add: upt_rec)
  have b: "S3_BUCKET default_config = ''bucket''" "S3_LIST_OBJECTS_MAX_KEYS default_config = 1000"
    by (simp_all add: default_config_def)
  from List_stitches_pages[OF refl h, of default_config "[(''d'', 4)]" "[Inl (OtherError ''never asked'')]"]
  have "List default_config
        (map (\<lambda>entries. Inr \<lparr> Contents = entries, IsTruncated = True \<rparr>) ?pre
           @ Inr \<lparr> Contents = [(''d'', 4)], IsTruncated = False \<rparr> # [Inl (OtherError ''never asked'')])
      = Some (Return (map (\<lambda>entry. Object_zero \<lparr> Key := fst entry, LastModified := snd entry \<rparr>)
                           (concat ?pre @ [(''d'', 4)]), None),
                 \<lparr> ListBucket = S3_BUCKET default_config, MaxKeys = S3_LIST_OBJECTS_MAX_KEYS default_config,
                   StartAfter = None \<rparr>
                 # map (\<lambda>k. \<lparr> ListBucket = S3_BUCKET default_config,
                              MaxKeys = S3_LIST_OBJECTS_MAX_KEYS default_config,
                              StartAfter = Some (fst (last (concat (take (Suc k) ?pre)))) \<rparr>)
                     [0..<length ?pre])"
    by (rule conjunct1)
  then show ?thesis unfolding u b by simp
qed

text \<open>
  When the first page reports truncation and holds no object, there is no last object to
  take the cursor from: \<open>objects[len(objects)-1]\<close> is out of range.
\<close>

lemma List_truncated_empty_first_page:
  "List cfg (Inr \<lparr> Contents = [], IsTruncated = True \<rparr> # rest) =
     Some (Panic IndexOutOfRange, [listInput cfg None])"
  by (simp add: List_def List_loop_first) (subst List_loop.simps, simp)

text \<open>
  C5 at a listing whose first page is empty and reports truncation: \<open>List\<close> does not
  ask for the next page and does not return the objects of the pages that follow, it
  panics after the first request.
\<close>

theorem List_truncated_empty_page_panics:
  "List default_config
     [Inr \<lparr> Contents = [], IsTruncated = True \<rparr>,
      Inr \<lparr> Contents = [(''a'', 1)], IsTruncated = False \<rparr>]
   = Some (Panic IndexOutOfRange,
           [\<lparr> ListBucket = ''bucket'', MaxKeys = 1000, StartAfter = None \<rparr>])"
  by (simp add: List_truncated_empty_first_page listInput_def default_config_def)

section \<open>\<open>Reap\<close>\<close>

lemma purgeCache_live: "live (snd (purgeCache cfg cdn w obj)) = live w"
  by (simp add: purgeCache_def Let_def split: option.splits)

lemma Delete_live:
  "live (snd (Delete cfg env cdn w obj)) \<subseteq> live w
   \<and> live w - {Key obj} \<subseteq> live (snd (Delete cfg env cdn w obj))"
  by (auto simp: Delete_def purgeCache_live split: option.splits)

lemma Delete_success_live:
  assumes "Delete cfg env cdn w obj = (Return None, w')"
  shows "live w' = live w - {Key obj}"
proof (cases "DeleteObject env (S3_BUCKET cfg) (Key obj)")
  case None
  then have "w' = snd (purgeCache cfg cdn (w \<lparr> live := live w - {Key obj} \<rparr>) obj)"
    using assms by (simp add: Delete_def)
  then show ?thesis by (simp add: purgeCache_live)
next
  case (Some e)
  then show ?thesis using assms by (simp add: Delete_def)
qed

lemma Reap_loop_step:
  "Reap_loop cfg env cdn now (obj # objects) n w =
     (if expired cfg now obj then
        (case Delete cfg env cdn w obj of
           (Panic p, w') \<Rightarrow> (Panic p, w')
         | (Return (Some err), w') \<Rightarrow> (Return (n, Some err), w')
         | (Return None, w') \<Rightarrow> Reap_loop cfg env cdn now objects (n + 1) w')
      else Reap_loop cfg env cdn now objects n w)"
  by (simp add: expired_def)

lemma Reap_loop_success:
  assumes "Reap_loop cfg env cdn now objects n w = (Return (n', None), w')"
  shows "n' = n + int (length (filter (expired cfg now) objects))
       \<and> live w' = live w - Key ` {obj \<in> set objects. expired cfg now obj}"
  using assms
proof (induction objects arbitrary: n w)
  case Nil
  then show ?case by simp
next
  case (Cons obj objects)
  show ?case
  proof (cases "expired cfg now obj")
    case False
    then have "Reap_loop cfg env cdn now objects n w = (Return (n', None), w')"
      using Cons.prems by (simp add: Reap_loop_step del: Reap_loop.simps)
    from Cons.IH[OF this] False show ?thesis by auto
  next
    case True
    obtain r w1 where d: "Delete cfg env cdn w obj = (r, w1)" by (cases "Delete cfg env cdn w obj")
    have r: "r = Return None" and rest: "Reap_loop cfg env cdn now objects (n + 1) w1 = (Return (n', None), w')"
      using Cons.prems True d
      by (auto simp: Reap_loop_step simp del: Reap_loop.simps split: outcome.splits option.splits)
    have l: "live w1 = live w - {Key obj}" using Delete_success_live d r by blast
    from Cons.IH[OF rest] l True show ?thesis by auto
  qed
qed

lemma Reap_loop_stops:
  assumes "Reap_loop cfg env cdn now objects n w = (r, w')"
    and "\<forall>m. r \<noteq> Return (m, None)"
  shows "\<exists>pre obj post m w1. objects = pre @ obj # post \<and> expired cfg now obj
           \<and> Reap_loop cfg env cdn now pre n w = (Return (m, None), w1)
           \<and> (case r of
                 Panic p \<Rightarrow> Delete cfg env cdn w1 obj = (Panic p, w')
               | Return (k, err) \<Rightarrow> k = m \<and> Delete cfg env cdn w1 obj = (Return err, w'))"
  using assms
proof (induction objects arbitrary: n w)
  case Nil
  then show ?case by auto
next
  case (Cons obj objects)
  show ?case
  proof (cases "expired cfg now obj")
    case False
    then have "Reap_loop cfg env cdn now objects n w = (r, w')"
      using Cons.prems by (simp add: Reap_loop_step del: Reap_loop.simps)
    from Cons.IH[OF this Cons.prems(2)]
    obtain pre ob post m w1 where a: "objects = pre @ ob # post" "expired cfg now ob"
      "Reap_loop cfg env cdn now pre n w = (Return (m, None), w1)"
      "(case r of
                 Panic p \<Rightarrow> Delete cfg env cdn w1 ob = (Panic p, w')
               | Return (k, err) \<Rightarrow> k = m \<and> Delete cfg env cdn w1 ob = (Return err, w'))"
      by blast
    have "obj # objects = (obj # pre) @ ob # post" using a(1) by simp
    moreover have "Reap_loop cfg env cdn now (obj # pre) n w = (Return (m, None), w1)"
      using a(3) False by (simp add: Reap_loop_step del: Reap_loop.simps)
    ultimately show ?thesis using a(2,4) by blast
  next
    case True
    obtain d w1 where d: "Delete cfg env cdn w obj = (d, w1)" by (cases "Delete cfg env cdn w obj")
    show ?thesis
    proof (cases "d = Return None")
      case ok: True
      then have "Reap_loop cfg env cdn now objects (n + 1) w1 = (r, w')"
        using Cons.prems d True by (simp add: Reap_loop_step del: Reap_loop.simps)
      from Cons.IH[OF this Cons.prems(2)]
      obtain pre ob post m w2 where a: "objects = pre @ ob # post" "expired cfg now ob"
        "Reap_loop cfg env cdn now pre (n + 1) w1 = (Return (m, None), w2)"
        "(case r of
                 Panic p \<Rightarrow> Delete cfg env cdn w2 ob = (Panic p, w')
               | Return (k, err) \<Rightarrow> k = m \<and> Delete cfg env cdn w2 ob = (Return err, w'))"
        by blast
      have "obj # objects = (obj # pre) @ ob # post" using a(1) by simp
      moreover have "Reap_loop cfg env cdn now (obj # pre) n w = (Return (m, None), w2)"
        using a(3) True d ok by (simp add: Reap_loop_step del: Reap_loop.simps)
      ultimately show ?thesis using a(2,4) by blast
    next
      case bad: False
      have "obj # objects = [] @ obj # objects" by simp
      moreover have "Reap_loop cfg env cdn now [] n w = (Return (n, None), w)" by simp
      moreover have "(case r of
                 Panic p \<Rightarrow> Delete cfg env cdn w obj = (Panic p, w')
               | Return (k, err) \<Rightarrow> k = n \<and> Delete cfg env cdn w obj = (Return err, w'))"
        using Cons.prems(1) d True bad
        by (auto simp: Reap_loop_step simp del: Reap_loop.simps split: outcome.splits option.splits)
      ultimately show ?thesis using True by blast
    qed
  qed
qed

lemma Reap_loop_append:
  "Reap_loop cfg env cdn now (pre @ post) n w =
     (case Reap_loop cfg env cdn now pre n w of
        (Return (m, None), w1) \<Rightarrow> Reap_loop cfg env cdn now post m w1
      | (Return (m, Some err), w1) \<Rightarrow> (Return (m, Some err), w1)
      | (Panic p, w1) \<Rightarrow> (Panic p, w1))"
proof (induction pre arbitrary: n w)
  case Nil
  show ?case by simp
next
  case (Cons obj pre)
  show ?case
  proof (cases "expired cfg now obj")
    case False
    then show ?thesis using Cons.IH[of n w]
      by (simp add: Reap_loop_step del: Reap_loop.simps)
  next
    case True
    obtain d w1 where d: "Delete cfg env cdn w obj = (d, w1)" by (cases "Delete cfg env cdn w obj")
    show ?thesis
    proof (cases d)
      case (Panic p)
      then show ?thesis using True d by (simp add: Reap_loop_step del: Reap_loop.simps)
    next
      case (Return e)
      show ?thesis
      proof (cases e)
        case None
        then show ?thesis using True d Return Cons.IH[of "n + 1" w1]
          by (simp add: Reap_loop_step del: Reap_loop.simps)
      next
        case (Some err)
        then show ?thesis using True d Return
          by (simp add: Reap_loop_step del: Reap_loop.simps)
      qed
    qed
  qed
qed

text \<open>
  The loop stops at the first \<open>Delete\<close> that does not succeed: an error is returned with
  the count reached before it, a panic is passed on, and the objects after it are not
  looked at.
\<close>

lemma Reap_loop_stops_at_failing_Delete:
  assumes "Reap_loop cfg env cdn now pre n w = (Return (m, None), w1)"
    and "expired cfg now obj"
    and "Delete cfg env cdn w1 obj = (Return (Some err), w')"
  shows "Reap_loop cfg env cdn now (pre @ obj # post) n w = (Return (m, Some err), w')"
  using assms by (simp add: Reap_loop_append Reap_loop_step del: Reap_loop.simps)

lemma Reap_loop_panics_with_Delete:
  assumes "Reap_loop cfg env cdn now pre n w = (Return (m, None), w1)"
    and "expired cfg now obj"
    and "Delete cfg env cdn w1 obj = (Panic p, w')"
  shows "Reap_loop cfg env cdn now (pre @ obj # post) n w = (Panic p, w')"
  using assms by (simp add: Reap_loop_append Reap_loop_step del: Reap_loop.simps)

lemma Reap_loop_all_succeed:
  assumes "\<And>pre obj post m w1.
             objects = pre @ obj # post \<Longrightarrow> expired cfg now obj \<Longrightarrow>
             Reap_loop cfg env cdn now pre n w = (Return (m, None), w1) \<Longrightarrow>
             \<exists>w2. Delete cfg env cdn w1 obj = (Return None, w2)"
  shows "\<exists>w'. Reap_loop cfg env cdn now objects n w
              = (Return (n + int (length (filter (expired cfg now) objects)), None), w')
           \<and> live w' = live w - Key ` {obj \<in> set objects. expired cfg now obj}"
proof -
  obtain r w' where run: "Reap_loop cfg env cdn now objects n w = (r, w')"
    by (cases "Reap_loop cfg env cdn now objects n w")
  have "\<exists>m. r = Return (m, None)"
  proof (rule ccontr)
    assume "\<not> (\<exists>m. r = Return (m, None))"
    then have no: "\<forall>m. r \<noteq> Return (m, None)" by blast
    from Reap_loop_stops[OF run this]
    obtain pre obj post m w1 where a: "objects = pre @ obj # post" "expired cfg now obj"
      "Reap_loop cfg env cdn now pre n w = (Return (m, None), w1)"
      "(case r of
          Panic p \<Rightarrow> Delete cfg env cdn w1 obj = (Panic p, w')
        | Return (k, err) \<Rightarrow> k = m \<and> Delete cfg env cdn w1 obj = (Return err, w'))"
      by blast
    from assms[OF a(1,2,3)] obtain w2 where ok: "Delete cfg env cdn w1 obj = (Return None, w2)"
      by blast
    show False
    proof (cases r)
      case (Panic p)
      then show False using a(4) ok by simp
    next
      case (Return res)
      obtain k err where res: "res = (k, err)" by (cases res)
      have "err = None" "k = m" using a(4) ok Return res by simp_all
      then show False using no Return res by simp
    qed
  qed
  then obtain m where m: "r = Return (m, None)" by blast
  from Reap_loop_success[OF run[unfolded m]] run m show ?thesis by simp
qed

text \<open>
  Without a CDN zone \<open>purgeCache\<close> does nothing, \<open>Delete\<close> is the call of the store, and
  \<open>Reap\<close> cannot panic.
\<close>

lemma Delete_without_zone:
  assumes "CLOUDFLARE_ZONE cfg = []"
  shows "Delete cfg env cdn w obj =
           (case DeleteObject env (S3_BUCKET cfg) (Key obj) of
              Some err \<Rightarrow> (Return (Some err), w)
            | None \<Rightarrow> (Return None, w \<lparr> live := live w - {Key obj} \<rparr>))"
  using assms by (simp add: Delete_def purgeCache_def split: option.splits)

lemma Reap_loop_without_zone:
  assumes "CLOUDFLARE_ZONE cfg = []"
  shows "fst (Reap_loop cfg env cdn now objects n w) \<noteq> Panic p"
proof (induction objects arbitrary: n w)
  case Nil
  show ?case by simp
next
  case (Cons obj objects)
  show ?case
  proof (cases "expired cfg now obj")
    case False
    then show ?thesis using Cons.IH[of n w]
      by (simp add: Reap_loop_step del: Reap_loop.simps)
  next
    case True
    show ?thesis
    proof (cases "DeleteObject env (S3_BUCKET cfg) (Key obj)")
      case None
      then show ?thesis using True Cons.IH[of "n + 1" "w \<lparr> live := live w - {Key obj} \<rparr>"]
        by (simp add: Reap_loop_step Delete_without_zone[OF assms] del: Reap_loop.simps)
    next
      case (Some err)
      then show ?thesis using True
        by (simp add: Reap_loop_step Delete_without_zone[OF assms] del: Reap_loop.simps)
    qed
  qed
qed

text \<open>
  \<open>Reap\<close> on the listing that \<open>List\<close> returns. When every \<open>Delete\<close> it issues succeeds, it
  returns the number of the listed objects whose last-modified time plus the time to
  live is before \<open>now\<close>, and exactly their keys have left the bucket.
\<close>

lemma Reap_all_Deletes_succeed:
  assumes "List cfg responses = Some (Return (objects, None), requests)"
    and "\<And>pre obj post m w1.
           objects = pre @ obj # post \<Longrightarrow> expired cfg now obj \<Longrightarrow>
           Reap_loop cfg env cdn now pre 0 w = (Return (m, None), w1) \<Longrightarrow>
           \<exists>w2. Delete cfg env cdn w1 obj = (Return None, w2)"
  shows "\<exists>w'. Reap cfg env cdn responses now w
              = Some (Return (int (length (filter (expired cfg now) objects)), None), w')
           \<and> live w' = live w - Key ` {obj \<in> set objects. expired cfg now obj}"
proof -
  have "Reap cfg env cdn responses now w = Some (Reap_loop cfg env cdn now objects 0 w)"
    using assms(1) by (simp add: Reap_def)
  with Reap_loop_all_succeed[of objects cfg now env cdn 0 w, OF assms(2)]
  show ?thesis by simp
qed

text \<open>
  When the \<open>Delete\<close> of an expired object returns an error after the \<open>Delete\<close>s before it
  succeeded, \<open>Reap\<close> returns that error and the number of the expired objects before
  it, whose keys have left the bucket; the failing \<open>Delete\<close> may have removed its own key
  before its purge failed, and nothing else is touched.
\<close>

lemma Reap_stops_at_first_failing_Delete:
  assumes "List cfg responses = Some (Return (pre @ obj # post, None), requests)"
    and "Reap_loop cfg env cdn now pre 0 w = (Return (m, None), w1)"
    and "expired cfg now obj"
    and "Delete cfg env cdn w1 obj = (Return (Some err), w')"
  shows "Reap cfg env cdn responses now w = Some (Return (m, Some err), w')
       \<and> m = int (length (filter (expired cfg now) pre))
       \<and> live w1 = live w - Key ` {obj \<in> set pre. expired cfg now obj}
       \<and> live w' \<subseteq> live w1 \<and> live w1 - {Key obj} \<subseteq> live w'"
proof -
  have "Reap cfg env cdn responses now w
          = Some (Reap_loop cfg env cdn now (pre @ obj # post) 0 w)"
    using assms(1) by (simp add: Reap_def)
  then have "Reap cfg env cdn responses now w = Some (Return (m, Some err), w')"
    using Reap_loop_stops_at_failing_Delete[OF assms(2,3,4)] by simp
  moreover have "m = int (length (filter (expired cfg now) pre))"
    "live w1 = live w - Key ` {obj \<in> set pre. expired cfg now obj}"
    using Reap_loop_success[OF assms(2)] by simp_all
  moreover have "live w' \<subseteq> live w1 \<and> live w1 - {Key obj} \<subseteq> live w'"
    using Delete_live[of cfg env cdn w1 obj] assms(4) by simp
  ultimately show ?thesis by simp
qed

text \<open>
  When the \<open>Delete\<close> of an expired object panics, so does \<open>Reap\<close>: nothing is returned, and
  the expired objects after it stay in the bucket.
\<close>

lemma Reap_panics_with_Delete:
  assumes "List cfg responses = Some (Return (pre @ obj # post, None), requests)"
    and "Reap_loop cfg env cdn now pre 0 w = (Return (m, None), w1)"
    and "expired cfg now obj"
    and "Delete cfg env cdn w1 obj = (Panic p, w')"
  shows "Reap cfg env cdn responses now w = Some (Panic p, w')"
proof -
  have "Reap cfg env cdn responses now w
          = Some (Reap_loop cfg env cdn now (pre @ obj # post) 0 w)"
    using assms(1) by (simp add: Reap_def)
  then show ?thesis using Reap_loop_panics_with_Delete[OF assms(2,3,4)] by simp
qed

text \<open>
  Read from the result: whatever \<open>Reap\<close> gives on a listing is one of these three
  cases.
\<close>

lemma Reap_outcomes:
  assumes "List cfg responses = Some (Return (objects, None), requests)"
  shows "\<exists>r w'. Reap cfg env cdn responses now w = Some (r, w') \<and>
     (case r of
        Return (n, None) \<Rightarrow>
          n = int (length (filter (expired cfg now) objects))
          \<and> live w' = live w - Key ` {obj \<in> set objects. expired cfg now obj}
      | Return (n, Some err) \<Rightarrow>
          (\<exists>pre obj post w1. objects = pre @ obj # post \<and> expired cfg now obj
             \<and> n = int (length (filter (expired cfg now) pre))
             \<and> live w1 = live w - Key ` {obj \<in> set pre. expired cfg now obj}
             \<and> Delete cfg env cdn w1 obj = (Return (Some err), w')
             \<and> live w' \<subseteq> live w1 \<and> live w1 - {Key obj} \<subseteq> live w')
      | Panic p \<Rightarrow>
          (\<exists>pre obj post w1. objects = pre @ obj # post \<and> expired cfg now obj
             \<and> live w1 = live w - Key ` {obj \<in> set pre. expired cfg now obj}
             \<and> Delete cfg env cdn w1 obj = (Panic p, w')))"
proof -
  obtain r w' where run: "Reap_loop cfg env cdn now objects 0 w = (r, w')"
    by (cases "Reap_loop cfg env cdn now objects 0 w")
  have reap: "Reap cfg env cdn responses now w = Some (r, w')"
    using assms run by (simp add: Reap_def)
  have "case r of
        Return (n, None) \<Rightarrow>
          n = int (length (filter (expired cfg now) objects))
          \<and> live w' = live w - Key ` {obj \<in> set objects. expired cfg now obj}
      | Return (n, Some err) \<Rightarrow>
          (\<exists>pre obj post w1. objects = pre @ obj # post \<and> expired cfg now obj
             \<and> n = int (length (filter (expired cfg now) pre))
             \<and> live w1 = live w - Key ` {obj \<in> set pre. expired cfg now obj}
             \<and> Delete cfg env cdn w1 obj = (Return (Some err), w')
             \<and> live w' \<subseteq> live w1 \<and> live w1 - {Key obj} \<subseteq> live w')
      | Panic p \<Rightarrow>
          (\<exists>pre obj post w1. objects = pre @ obj # post \<and> expired cfg now obj
             \<and> live w1 = live w - Key ` {obj \<in> set pre. expired cfg now obj}
             \<and> Delete cfg env cdn w1 obj = (Panic p, w'))"
  proof (cases "\<exists>m. r = Return (m, None)")
    case True
    then obtain m where m: "r = Return (m, None)" by blast
    from Reap_loop_success[OF run[unfolded m]] show ?thesis unfolding m by simp
  next
    case False
    then have "\<forall>m. r \<noteq> Return (m, None)" by blast
    from Reap_loop_stops[OF run this]
    obtain pre obj post m w1 where a: "objects = pre @ obj # post" "expired cfg now obj"
      "Reap_loop cfg env cdn now pre 0 w = (Return (m, None), w1)"
      "(case r of
          Panic p \<Rightarrow> Delete cfg env cdn w1 obj = (Panic p, w')
        | Return (k, err) \<Rightarrow> k = m \<and> Delete cfg env cdn w1 obj = (Return err, w'))"
      by blast
    from Reap_loop_success[OF a(3)]
    have b: "m = int (length (filter (expired cfg now) pre))"
      "live w1 = live w - Key ` {obj \<in> set pre. expired cfg now obj}" by simp_all
    show ?thesis
    proof (cases r)
      case (Panic p)
      then show ?thesis using a b by auto
    next
      case (Return res)
      obtain k err where res: "res = (k, err)" by (cases res)
      obtain e where e: "err = Some e" using False Return res by (cases err) auto
      have d: "k = m" "Delete cfg env cdn w1 obj = (Return (Some e), w')"
        using a(4) Return res e by simp_all
      have sub: "live w' \<subseteq> live w1 \<and> live w1 - {Key obj} \<subseteq> live w'"
        using Delete_live[of cfg env cdn w1 obj] d(2) by simp
      have "\<exists>pre obj post w1. objects = pre @ obj # post \<and> expired cfg now obj
             \<and> k = int (length (filter (expired cfg now) pre))
             \<and> live w1 = live w - Key ` {obj \<in> set pre. expired cfg now obj}
             \<and> Delete cfg env cdn w1 obj = (Return (Some e), w')
             \<and> live w' \<subseteq> live w1 \<and> live w1 - {Key obj} \<subseteq> live w'"
        using a(1,2) b d sub by blast
      then show ?thesis by (simp add: Return res e)
    qed
  qed
  with reap show ?thesis by blast
qed

text \<open>
  A listing of three objects read at \<open>now\<close> = 3 * 10^14 ns: \<open>old1\<close> and \<open>old2\<close> have
  expired, \<open>new1\<close> between them has not. Without a CDN zone both are deleted and counted.
\<close>

lemma exampleListing_List:
  "List default_config exampleListing =
     Some (Return ([Object_zero \<lparr> Key := ''old1'', LastModified := 0 \<rparr>,
                    Object_zero \<lparr> Key := ''new1'', LastModified := 5 * 10 ^ 14 \<rparr>,
                    Object_zero \<lparr> Key := ''old2'', LastModified := 10 ^ 9 \<rparr>], None),
           [listInput default_config None])"
  by (simp add: exampleListing_def page_def List_def List_loop.simps listedObject_def)

lemma exampleListing_Reap:
  "Reap default_config (exampleEnv (\<lambda>bucket key. Inl (AwsError ''NotFound''))) exampleCdn
     exampleListing (3 * 10 ^ 14) exampleWorld
   = Some (Return (2, None), \<lparr> live = {''new1'', ''other''}, cloudflareClient = None \<rparr>)"
proof -
  let ?env = "exampleEnv (\<lambda>bucket key. Inl (AwsError ''NotFound''))"
  have d: "Delete default_config ?env exampleCdn w obj = (Return None, w \<lparr> live := live w - {Key obj} \<rparr>)"
    for w obj
    by (simp add: Delete_def purgeCache_def exampleEnv_def default_config_def)
  have "Reap_loop default_config ?env exampleCdn (3 * 10 ^ 14)
          [Object_zero \<lparr> Key := ''old1'', LastModified := 0 \<rparr>,
           Object_zero \<lparr> Key := ''new1'', LastModified := 5 * 10 ^ 14 \<rparr>,
           Object_zero \<lparr> Key := ''old2'', LastModified := 10 ^ 9 \<rparr>] 0 exampleWorld
      = (Return (2, None), \<lparr> live = {''new1'', ''other''}, cloudflareClient = None \<rparr>)"
    by (simp add: d) (auto simp: default_config_def exampleWorld_def)
  then show ?thesis by (simp add: Reap_def exampleListing_List)
qed

text \<open>
  The same listing when the store refuses to delete \<open>old2\<close>: \<open>Reap\<close> returns that error
  with the count 1 of \<open>old1\<close>, which stays deleted.
\<close>

lemma exampleListing_Reap_error:
  "Reap default_config
     ((exampleEnv (\<lambda>bucket key. Inl (AwsError ''NotFound'')))
        \<lparr> DeleteObject := (\<lambda>bucket key. if key = ''old2'' then Some (AwsError ''AccessDenied'')
                                         else None) \<rparr>)
     exampleCdn exampleListing (3 * 10 ^ 14) exampleWorld
   = Some (Return (1, Some (AwsError ''AccessDenied'')),
           \<lparr> live = {''new1'', ''old2'', ''other''}, cloudflareClient = None \<rparr>)"
proof -
  let ?env = "(exampleEnv (\<lambda>bucket key. Inl (AwsError ''NotFound'')))
       \<lparr> DeleteObject := (\<lambda>bucket key. if key = ''old2'' then Some (AwsError ''AccessDenied'')
                                        else None) \<rparr>"
  have z: "CLOUDFLARE_ZONE default_config = []" by (simp add: default_config_def)
  have d1: "Delete default_config ?env exampleCdn exampleWorld
              (Object_zero \<lparr> Key := ''old1'', LastModified := 0 \<rparr>)
            = (Return None, \<lparr> live = {''new1'', ''old2'', ''other''}, cloudflareClient = None \<rparr>)"
    by (auto simp: Delete_without_zone[OF z] exampleWorld_def)
  have d2: "Delete default_config ?env exampleCdn
              \<lparr> live = {''new1'', ''old2'', ''other''}, cloudflareClient = None \<rparr>
              (Object_zero \<lparr> Key := ''old2'', LastModified := modified \<rparr>)
            = (Return (Some (AwsError ''AccessDenied'')),
               \<lparr> live = {''new1'', ''old2'', ''other''}, cloudflareClient = None \<rparr>)"
    for modified
    by (simp add: Delete_without_zone[OF z])
  have t: "OBJECT_TIME_TO_LIVE default_config = 259199000000000"
    by (simp add: default_config_def)
  have "Reap_loop default_config ?env exampleCdn (3 * 10 ^ 14)
          [Object_zero \<lparr> Key := ''old1'', LastModified := 0 \<rparr>,
           Object_zero \<lparr> Key := ''new1'', LastModified := 5 * 10 ^ 14 \<rparr>,
           Object_zero \<lparr> Key := ''old2'', LastModified := 10 ^ 9 \<rparr>] 0 exampleWorld
      = (Return (1, Some (AwsError ''AccessDenied'')),
         \<lparr> live = {''new1'', ''old2'', ''other''}, cloudflareClient = None \<rparr>)"
    by (simp add: t d1 d2)
  then show ?thesis by (simp add: Reap_def exampleListing_List)
qed

text \<open>
  The same listing under a configuration with a CDN zone and none of the three
  credential shapes.
\<close>

lemma exampleListing_List_zone:
  "List (default_config \<lparr> CLOUDFLARE_ZONE := ''zone'' \<rparr>) exampleListing =
     Some (Return ([Object_zero \<lparr> Key := ''old1'', LastModified := 0 \<rparr>,
                    Object_zero \<lparr> Key := ''new1'', LastModified := 5 * 10 ^ 14 \<rparr>,
                    Object_zero \<lparr> Key := ''old2'', LastModified := 10 ^ 9 \<rparr>], None),
           [listInput (default_config \<lparr> CLOUDFLARE_ZONE := ''zone'' \<rparr>) None])"
  by (simp add: exampleListing_def page_def List_def List_loop.simps listedObject_def)

text \<open>
  C4. \<open>Reap\<close> is to delete exactly the listed objects whose last-modified time plus the
  time to live is before \<open>now\<close> and to return their count, or the first \<open>Delete\<close> error
  with the count reached. With a CDN zone configured and none of the three credential
  shapes set it does neither. On the listing \<open>old1\<close>, \<open>new1\<close>, \<open>old2\<close>, of which \<open>old1\<close> and
  \<open>old2\<close> have expired, and a store that deletes without error, the first \<open>Delete\<close> removes
  \<open>old1\<close> from the bucket and then issues the purge call on the CDN client that was
  never constructed: \<open>Reap\<close> panics with a nil dereference, returns neither a count nor
  an error, and \<open>old2\<close> stays in the bucket.
\<close>

theorem Reap_without_credentials_panics:
  "Reap (default_config \<lparr> CLOUDFLARE_ZONE := ''zone'' \<rparr>)
     (exampleEnv (\<lambda>bucket key. Inl (AwsError ''NotFound''))) exampleCdn
     exampleListing (3 * 10 ^ 14) exampleWorld
   = Some (Panic NilDereference,
           \<lparr> live = {''new1'', ''old2'', ''other''}, cloudflareClient = None \<rparr>)"
proof -
  let ?cfg = "default_config \<lparr> CLOUDFLARE_ZONE := ''zone'' \<rparr>"
  let ?env = "exampleEnv (\<lambda>bucket key. Inl (AwsError ''NotFound''))"
  let ?old1 = "Object_zero \<lparr> Key := ''old1'', LastModified := 0 \<rparr>"
  have d: "Delete ?cfg ?env exampleCdn exampleWorld ?old1
        = (Panic NilDereference,
           \<lparr> live = {''new1'', ''old2'', ''other''}, cloudflareClient = None \<rparr>)"
    by (auto simp: Delete_def purgeCache_def exampleEnv_def exampleCdn_def default_config_def
        exampleWorld_def Let_def)
  have e: "LastModified ?old1 + OBJECT_TIME_TO_LIVE ?cfg < 3 * 10 ^ 14"
    by (simp add: default_config_def)
  have "Reap_loop ?cfg ?env exampleCdn (3 * 10 ^ 14)
          [?old1,
           Object_zero \<lparr> Key := ''new1'', LastModified := 5 * 10 ^ 14 \<rparr>,
           Object_zero \<lparr> Key := ''old2'', LastModified := 10 ^ 9 \<rparr>] 0 exampleWorld
      = (Panic NilDereference,
         \<lparr> live = {''new1'', ''old2'', ''other''}, cloudflareClient = None \<rparr>)"
    using e by (simp add: d)
  then show ?thesis by (simp add: Reap_def exampleListing_List_zone)
qed

end
